theory Spec2Isabelle
  imports Complex_Main
begin

section \<open>Strings of the source language\<close>

text \<open>
  A JavaScript string is modelled as a \<^typ>\<open>string\<close>, one \<^typ>\<open>char\<close> per code unit,
  so the model covers the code units up to 0xFF.
  \<^verbatim>\<open>\s\<close> and \<^verbatim>\<open>trim()\<close> agree on what white space is: in this range tab, line
  feed, vertical tab, form feed, carriage return, space and the no-break space.
\<close>

definition isSpace :: "char \<Rightarrow> bool" where
  "isSpace c = (c = CHR 0x09 \<or> c = CHR 0x0A \<or> c = CHR 0x0B \<or> c = CHR 0x0C
      \<or> c = CHR 0x0D \<or> c = CHR 0x20 \<or> c = CHR 0xA0)"

text \<open>The class \<^verbatim>\<open>\w\<close>: letters, digits and the underscore.\<close>

definition isWordChar :: "char \<Rightarrow> bool" where
  "isWordChar c = (c \<in> set (''0123456789_'' @ ''abcdefghijklmnopqrstuvwxyz''
      @ ''ABCDEFGHIJKLMNOPQRSTUVWXYZ''))"

definition trim :: "string \<Rightarrow> string" where
  "trim s = rev (dropWhile isSpace (rev (dropWhile isSpace s)))"

text \<open>
  \<^verbatim>\<open>toUpperCase\<close> may leave the range of \<^typ>\<open>char\<close> and may lengthen the string, so
  its result is given as a list of code units: the small ASCII letters and the small
  Latin-1 letters 0xE0 to 0xFE, but for the division sign 0xF7, move down by 32; the micro
  sign 0xB5 becomes the Greek capital mu 0x39C, the sharp s 0xDF becomes two capital S, and
  0xFF becomes 0x178. \<open>codeUnits\<close> reads a string in the same way, for the comparison
  \<^verbatim>\<open>===\<close>.
\<close>

definition toUpperUnits :: "char \<Rightarrow> nat list" where
  "toUpperUnits c =
     (let n = (of_char c :: nat) in
      if 97 \<le> n \<and> n \<le> 122 then [n - 32]
      else if n = 181 then [924]
      else if n = 223 then [83, 83]
      else if 224 \<le> n \<and> n \<le> 254 \<and> n \<noteq> 247 then [n - 32]
      else if n = 255 then [376]
      else [n])"

definition toUpperCase :: "string \<Rightarrow> nat list" where
  "toUpperCase s = concat (map toUpperUnits s)"

definition codeUnits :: "string \<Rightarrow> nat list" where
  "codeUnits s = map of_char s"

definition endsWith :: "string \<Rightarrow> string \<Rightarrow> bool" where
  "endsWith s suffix = (length suffix \<le> length s \<and> drop (length s - length suffix) s = suffix)"

fun includesStr :: "string \<Rightarrow> string \<Rightarrow> bool" where
  "includesStr [] needle = (needle = [])"
| "includesStr (c # cs) needle =
     (take (length needle) (c # cs) = needle \<or> includesStr cs needle)"

text \<open>
  \<^verbatim>\<open>String.prototype.split\<close> with a regular expression walks the string with two
  indices: the start of the current piece and the position where a match is tried.
  Here the piece read so far is the first argument and the rest of the string the second.
  \<^verbatim>\<open>split(/\s+/)\<close>: a match is a maximal run of white space.
\<close>

function splitWsFrom :: "string \<Rightarrow> string \<Rightarrow> string list" where
  "splitWsFrom piece [] = [piece]"
| "splitWsFrom piece (c # cs) =
     (if isSpace c then piece # splitWsFrom [] (dropWhile isSpace cs)
      else splitWsFrom (piece @ [c]) cs)"
  by pat_completeness auto
termination
  by (relation "measure (\<lambda>(piece, s). length s)")
     (auto simp: less_Suc_eq_le length_dropWhile_le)

definition splitWs :: "string \<Rightarrow> string list" where
  "splitWs s = splitWsFrom [] s"

text \<open>
  \<^verbatim>\<open>split(/\n\s*\n/)\<close>: a match starts at a line feed, the greedy \<^verbatim>\<open>\s*\<close> takes the
  whole run of white space behind it and gives back characters until a line feed ends the
  match. So a match exists when that run holds a line feed, and it ends behind the last
  line feed of the run; \<open>afterBlank\<close> is what is left of the string there.
\<close>

definition afterBlank :: "string \<Rightarrow> string" where
  "afterBlank cs = rev (takeWhile (\<lambda>c. c \<noteq> CHR 0x0A) (rev (takeWhile isSpace cs)))
      @ dropWhile isSpace cs"

function splitParagraphsFrom :: "string \<Rightarrow> string \<Rightarrow> string list" where
  "splitParagraphsFrom piece [] = [piece]"
| "splitParagraphsFrom piece (c # cs) =
     (if c = CHR 0x0A \<and> CHR 0x0A \<in> set (takeWhile isSpace cs)
      then piece # splitParagraphsFrom [] (afterBlank cs)
      else splitParagraphsFrom (piece @ [c]) cs)"
  by pat_completeness auto
termination
proof (relation "measure (\<lambda>(piece, s). length s)")
  show "wf (measure (\<lambda>(piece, s). length s))" by simp
next
  fix piece :: string and c :: char and cs :: string
  have "length (takeWhile (\<lambda>c. c \<noteq> CHR 0x0A) (rev (takeWhile isSpace cs)))
      \<le> length (takeWhile isSpace cs)"
    using length_takeWhile_le [of "\<lambda>c. c \<noteq> CHR 0x0A" "rev (takeWhile isSpace cs)"] by simp
  moreover have "length (takeWhile isSpace cs) + length (dropWhile isSpace cs) = length cs"
    by (metis length_append takeWhile_dropWhile_id)
  ultimately have "length (afterBlank cs) \<le> length cs"
    by (simp add: afterBlank_def)
  then show "(([], afterBlank cs), (piece, c # cs)) \<in> measure (\<lambda>(piece, s). length s)"
    by simp
next
  fix piece :: string and c :: char and cs :: string
  show "((piece @ [c], cs), (piece, c # cs)) \<in> measure (\<lambda>(piece, s). length s)"
    by simp
qed

definition splitParagraphs :: "string \<Rightarrow> string list" where
  "splitParagraphs s = splitParagraphsFrom [] s"

text \<open>Template literals print a number in decimal.\<close>

fun showNat :: "nat \<Rightarrow> string" where
  "showNat n = (if n < 10 then [''0123456789'' ! n]
                else showNat (n div 10) @ [''0123456789'' ! (n mod 10)])"

declare showNat.simps [simp del]

section \<open>The heading test\<close>

text \<open>
  \<^verbatim>\<open>paragraph.trim().length < 80 && (paragraph.endsWith(':') ||
     !paragraph.includes('.') || paragraph.toUpperCase() === paragraph)\<close>
\<close>

definition isHeading :: "string \<Rightarrow> bool" where
  "isHeading paragraph =
     (length (trim paragraph) < 80 \<and>
      (endsWith paragraph '':'' \<or> \<not> includesStr paragraph ''.''
       \<or> toUpperCase paragraph = codeUnits paragraph))"

section \<open>Page geometry and drawn text\<close>

text \<open>
  The source fixes the geometry in local constants: pages of 612 by 792 points, a margin of
  50, font sizes 12, 10 and 18. They are gathered in a record so that statements about the
  geometry can name it; \<open>default_geometry\<close> holds the values of the source. All of them are
  integers or halves, which the floating point numbers of the source represent exactly, so
  vertical positions are rationals here.
\<close>

record geometry =
  pageWidth :: rat
  pageHeight :: rat
  margin :: rat
  fontSize :: rat
  smallFontSize :: rat
  titleFontSize :: rat

definition default_geometry :: geometry where
  "default_geometry = \<lparr>pageWidth = 612, pageHeight = 792, margin = 50, fontSize = 12,
      smallFontSize = 10, titleFontSize = 18\<rparr>"

definition lineHeight :: "geometry \<Rightarrow> rat" where
  "lineHeight g = fontSize g * (3 / 2)"

definition maxWidth :: "geometry \<Rightarrow> rat" where
  "maxWidth g = pageWidth g - margin g * 2"

datatype font = Helvetica | HelveticaBold | HelveticaOblique

datatype color = Rgb rat rat rat

text \<open>One call of \<^verbatim>\<open>drawText\<close>: the text and its options.\<close>

record textRun =
  rtext :: string
  rx :: rat
  ry :: rat
  rsize :: rat
  rfont :: font
  rcolor :: color

type_synonym page = "textRun list"

text \<open>
  \<^verbatim>\<open>font.widthOfTextAtSize(text, size)\<close> belongs to the PDF library; the model takes it
  as a parameter.
\<close>

type_synonym textMeasure = "font \<Rightarrow> string \<Rightarrow> rat \<Rightarrow> rat"

section \<open>Greedy word wrap\<close>

text \<open>
  The loop over \<^verbatim>\<open>words\<close> with its two variables, \<^verbatim>\<open>lines\<close> and
  \<^verbatim>\<open>currentLine\<close>; an empty string is falsy.
\<close>

fun wrapLoop :: "(string \<Rightarrow> rat) \<Rightarrow> rat \<Rightarrow> string list \<Rightarrow> string list \<Rightarrow> string
    \<Rightarrow> string list \<times> string" where
  "wrapLoop width maxW [] lines currentLine = (lines, currentLine)"
| "wrapLoop width maxW (word # words) lines currentLine =
     (let testLine = (if currentLine \<noteq> [] then currentLine @ '' '' @ word else word)
      in if width testLine \<le> maxW
         then wrapLoop width maxW words lines testLine
         else wrapLoop width maxW words (lines @ [currentLine]) word)"

definition wrapLines :: "(string \<Rightarrow> rat) \<Rightarrow> rat \<Rightarrow> string list \<Rightarrow> string list" where
  "wrapLines width maxW words =
     (case wrapLoop width maxW words [] [] of
        (lines, currentLine) \<Rightarrow> if currentLine \<noteq> [] then lines @ [currentLine] else lines)"

section \<open>The layout pass\<close>

text \<open>
  The document is a list of pages and \<^verbatim>\<open>currentPage\<close> is always the page added
  last, so the state of the pass is: the pages before the current one, the current page,
  and the vertical position \<^verbatim>\<open>y\<close>.
\<close>

record layoutState =
  donePages :: "page list"
  currentPage :: page
  y :: rat

definition docPages :: "layoutState \<Rightarrow> page list" where
  "docPages st = donePages st @ [currentPage st]"

definition drawText :: "layoutState \<Rightarrow> textRun \<Rightarrow> layoutState" where
  "drawText st r = st\<lparr>currentPage := currentPage st @ [r]\<rparr>"

text \<open>\<^verbatim>\<open>currentPage = pdfDoc.addPage([612, 792]); y = height - margin - fontSize;\<close>\<close>

definition newPage :: "geometry \<Rightarrow> layoutState \<Rightarrow> layoutState" where
  "newPage g st = \<lparr>donePages = donePages st @ [currentPage st], currentPage = [],
      y = pageHeight g - margin g - fontSize g\<rparr>"

definition black :: color where
  "black = Rgb 0 0 0"

definition gray :: color where
  "gray = Rgb (1 / 2) (1 / 2) (1 / 2)"

definition lineRun :: "geometry \<Rightarrow> font \<Rightarrow> rat \<Rightarrow> rat \<Rightarrow> string \<Rightarrow> textRun" where
  "lineRun g fnt sz ypos line =
     \<lparr>rtext = line, rx = margin g, ry = ypos, rsize = sz, rfont = fnt, rcolor = black\<rparr>"

text \<open>The loop that draws the lines of one paragraph, and its body.\<close>

definition drawLine :: "geometry \<Rightarrow> font \<Rightarrow> rat \<Rightarrow> layoutState \<Rightarrow> string \<Rightarrow> layoutState" where
  "drawLine g fnt sz st line =
     (let st1 = drawText st (lineRun g fnt sz (y st) line);
          st2 = st1\<lparr>y := y st1 - lineHeight g\<rparr>
      in if y st2 < margin g then newPage g st2 else st2)"

fun drawLines :: "geometry \<Rightarrow> font \<Rightarrow> rat \<Rightarrow> layoutState \<Rightarrow> string list \<Rightarrow> layoutState" where
  "drawLines g fnt sz st [] = st"
| "drawLines g fnt sz st (line # lines) = drawLines g fnt sz (drawLine g fnt sz st line) lines"

definition paragraphFont :: "string \<Rightarrow> font" where
  "paragraphFont paragraph = (if isHeading paragraph then HelveticaBold else Helvetica)"

text \<open>
  The size of a heading, \<^verbatim>\<open>fontSize * 1.2\<close>, is the one product of the source that
  floating point rounds. It is only handed to the library, to measure and to draw, and
  never enters a vertical position; the model keeps the exact product.
\<close>

definition paragraphSize :: "geometry \<Rightarrow> string \<Rightarrow> rat" where
  "paragraphSize g paragraph =
     (if isHeading paragraph then fontSize g * (6 / 5) else fontSize g)"

text \<open>\<^verbatim>\<open>font.widthOfTextAtSize(testLine, size)\<close> with the font and size of the paragraph.\<close>

definition lineWidth :: "geometry \<Rightarrow> textMeasure \<Rightarrow> string \<Rightarrow> string \<Rightarrow> rat" where
  "lineWidth g wd paragraph t = wd (paragraphFont paragraph) t (paragraphSize g paragraph)"

definition paragraphLines :: "geometry \<Rightarrow> textMeasure \<Rightarrow> string \<Rightarrow> string list" where
  "paragraphLines g wd paragraph =
     wrapLines (lineWidth g wd paragraph) (maxWidth g) (splitWs paragraph)"

text \<open>The body of the loop over the paragraphs.\<close>

definition layoutParagraph :: "geometry \<Rightarrow> textMeasure \<Rightarrow> layoutState \<Rightarrow> string \<Rightarrow> layoutState" where
  "layoutParagraph g wd st paragraph =
     (if trim paragraph = [] then st
      else
        let lines = paragraphLines g wd paragraph;
            st1 = (if y st - of_nat (length lines) * lineHeight g < margin g
                   then newPage g st else st);
            st2 = drawLines g (paragraphFont paragraph) (paragraphSize g paragraph) st1 lines
        in st2\<lparr>y := y st2 - fontSize g\<rparr>)"

definition layoutParagraphs :: "geometry \<Rightarrow> textMeasure \<Rightarrow> layoutState \<Rightarrow> string list \<Rightarrow> layoutState" where
  "layoutParagraphs g wd st paragraphs = foldl (layoutParagraph g wd) st paragraphs"

section \<open>Title and footers\<close>

text \<open>
  \<^verbatim>\<open>textPath.split(/[\\/]/).pop() || 'Document'\<close> and
  \<^verbatim>\<open>filename.replace(/\.\w+$/, '')\<close>.
\<close>

definition fileNameOf :: "string \<Rightarrow> string" where
  "fileNameOf textPath =
     (let name = rev (takeWhile (\<lambda>c. c \<noteq> CHR 0x5C \<and> c \<noteq> CHR ''/'') (rev textPath))
      in if name = [] then ''Document'' else name)"

definition titleOf :: "string \<Rightarrow> string" where
  "titleOf filename =
     (let ext = rev (takeWhile isWordChar (rev filename));
          stem = take (length filename - length ext) filename
      in if ext \<noteq> [] \<and> stem \<noteq> [] \<and> last stem = CHR ''.'' then butlast stem else filename)"

definition titleRun :: "geometry \<Rightarrow> string \<Rightarrow> textRun" where
  "titleRun g title =
     \<lparr>rtext = title, rx = margin g, ry = pageHeight g - margin g - titleFontSize g,
      rsize = titleFontSize g, rfont = HelveticaBold, rcolor = black\<rparr>"

definition initialState :: "geometry \<Rightarrow> string \<Rightarrow> layoutState" where
  "initialState g textPath =
     \<lparr>donePages = [], currentPage = [titleRun g (titleOf (fileNameOf textPath))],
      y = pageHeight g - margin g - titleFontSize g - titleFontSize g * (3 / 2)\<rparr>"

definition footerRun :: "geometry \<Rightarrow> nat \<Rightarrow> nat \<Rightarrow> textRun" where
  "footerRun g i pageCount =
     \<lparr>rtext = ''Page '' @ showNat (i + 1) @ '' of '' @ showNat pageCount,
      rx = margin g, ry = margin g / 2, rsize = smallFontSize g, rfont = Helvetica,
      rcolor = gray\<rparr>"

text \<open>The loop \<^verbatim>\<open>for (let i = 0; i < pageCount; i++)\<close>, from index \<open>i\<close> on.\<close>

fun stampFooters :: "geometry \<Rightarrow> nat \<Rightarrow> nat \<Rightarrow> page list \<Rightarrow> page list" where
  "stampFooters g pageCount i [] = []"
| "stampFooters g pageCount i (p # ps) =
     (p @ [footerRun g i pageCount]) # stampFooters g pageCount (i + 1) ps"

section \<open>The conversion\<close>

text \<open>
  \<open>convertTextToPdfWith\<close> gives the pages that \<^verbatim>\<open>convertTextToPdf\<close> builds from the
  contents of the file when no call of the library throws, each page the list of its text
  runs in drawing order. The exceptions of the library are added in the next section.
\<close>

definition layoutPass :: "geometry \<Rightarrow> textMeasure \<Rightarrow> string \<Rightarrow> string \<Rightarrow> layoutState" where
  "layoutPass g wd textPath textContent =
     layoutParagraphs g wd (initialState g textPath) (splitParagraphs textContent)"

definition convertTextToPdfWith :: "geometry \<Rightarrow> textMeasure \<Rightarrow> string \<Rightarrow> string \<Rightarrow> page list" where
  "convertTextToPdfWith g wd textPath textContent =
     (let doc = docPages (layoutPass g wd textPath textContent)
      in stampFooters g (length doc) 0 doc)"

definition convertTextToPdf :: "textMeasure \<Rightarrow> string \<Rightarrow> string \<Rightarrow> page list" where
  "convertTextToPdf wd textPath textContent =
     convertTextToPdfWith default_geometry wd textPath textContent"

section \<open>The conversion with the exceptions of the library\<close>

text \<open>
  The standard fonts encode a character or throw. \<^verbatim>\<open>font.widthOfTextAtSize\<close> encodes
  its text one character after the other; \<^verbatim>\<open>drawText\<close> first cleans its text of
  tabs and line breaks and encodes what is left. The body of \<^verbatim>\<open>convertTextToPdf\<close>
  stands in a \<^verbatim>\<open>try\<close> whose handler logs the exception and throws it again, before
  anything is saved. Which characters the font encodes and which texts can be drawn belongs
  to the library, as the widths do; the model takes the three as parameters.
\<close>

datatype error = EncodingError

record pdfLibrary =
  canEncode :: "char \<Rightarrow> bool"
  canDraw :: "string \<Rightarrow> bool"
  widthOf :: textMeasure

definition encodes :: "pdfLibrary \<Rightarrow> string \<Rightarrow> bool" where
  "encodes lib t = list_all (canEncode lib) t"

definition widthOfTextAtSize :: "pdfLibrary \<Rightarrow> font \<Rightarrow> string \<Rightarrow> rat \<Rightarrow> error + rat" where
  "widthOfTextAtSize lib fnt t sz =
     (if encodes lib t then Inr (widthOf lib fnt t sz) else Inl EncodingError)"

fun tryWrapLoop :: "pdfLibrary \<Rightarrow> font \<Rightarrow> rat \<Rightarrow> rat \<Rightarrow> string list \<Rightarrow> string list \<Rightarrow> string
    \<Rightarrow> error + string list \<times> string" where
  "tryWrapLoop lib fnt sz maxW [] lines currentLine = Inr (lines, currentLine)"
| "tryWrapLoop lib fnt sz maxW (word # words) lines currentLine =
     (let testLine = (if currentLine \<noteq> [] then currentLine @ '' '' @ word else word)
      in (case widthOfTextAtSize lib fnt testLine sz of
            Inl e \<Rightarrow> Inl e
          | Inr textWidth \<Rightarrow>
              if textWidth \<le> maxW
              then tryWrapLoop lib fnt sz maxW words lines testLine
              else tryWrapLoop lib fnt sz maxW words (lines @ [currentLine]) word))"

definition tryParagraphLines :: "pdfLibrary \<Rightarrow> geometry \<Rightarrow> string \<Rightarrow> error + string list" where
  "tryParagraphLines lib g paragraph =
     (case tryWrapLoop lib (paragraphFont paragraph) (paragraphSize g paragraph) (maxWidth g)
             (splitWs paragraph) [] [] of
        Inl e \<Rightarrow> Inl e
      | Inr (lines, currentLine) \<Rightarrow>
          Inr (if currentLine \<noteq> [] then lines @ [currentLine] else lines))"

definition tryDrawText :: "pdfLibrary \<Rightarrow> layoutState \<Rightarrow> textRun \<Rightarrow> error + layoutState" where
  "tryDrawText lib st r =
     (if canDraw lib (rtext r) then Inr (drawText st r) else Inl EncodingError)"

definition tryDrawLine :: "pdfLibrary \<Rightarrow> geometry \<Rightarrow> font \<Rightarrow> rat \<Rightarrow> layoutState \<Rightarrow> string
    \<Rightarrow> error + layoutState" where
  "tryDrawLine lib g fnt sz st line =
     (case tryDrawText lib st (lineRun g fnt sz (y st) line) of
        Inl e \<Rightarrow> Inl e
      | Inr st1 \<Rightarrow>
          let st2 = st1\<lparr>y := y st1 - lineHeight g\<rparr>
          in Inr (if y st2 < margin g then newPage g st2 else st2))"

fun tryDrawLines :: "pdfLibrary \<Rightarrow> geometry \<Rightarrow> font \<Rightarrow> rat \<Rightarrow> layoutState \<Rightarrow> string list
    \<Rightarrow> error + layoutState" where
  "tryDrawLines lib g fnt sz st [] = Inr st"
| "tryDrawLines lib g fnt sz st (line # lines) =
     (case tryDrawLine lib g fnt sz st line of
        Inl e \<Rightarrow> Inl e
      | Inr st' \<Rightarrow> tryDrawLines lib g fnt sz st' lines)"

definition tryLayoutParagraph :: "pdfLibrary \<Rightarrow> geometry \<Rightarrow> layoutState \<Rightarrow> string
    \<Rightarrow> error + layoutState" where
  "tryLayoutParagraph lib g st paragraph =
     (if trim paragraph = [] then Inr st
      else
        (case tryParagraphLines lib g paragraph of
          Inl e \<Rightarrow> Inl e
        | Inr lines \<Rightarrow>
            let st1 = (if y st - of_nat (length lines) * lineHeight g < margin g
                       then newPage g st else st)
            in (case tryDrawLines lib g (paragraphFont paragraph) (paragraphSize g paragraph)
                       st1 lines of
                  Inl e \<Rightarrow> Inl e
                | Inr st2 \<Rightarrow> Inr (st2\<lparr>y := y st2 - fontSize g\<rparr>))))"

fun tryLayoutParagraphs :: "pdfLibrary \<Rightarrow> geometry \<Rightarrow> layoutState \<Rightarrow> string list
    \<Rightarrow> error + layoutState" where
  "tryLayoutParagraphs lib g st [] = Inr st"
| "tryLayoutParagraphs lib g st (paragraph # paragraphs) =
     (case tryLayoutParagraph lib g st paragraph of
        Inl e \<Rightarrow> Inl e
      | Inr st' \<Rightarrow> tryLayoutParagraphs lib g st' paragraphs)"

text \<open>The first page with the title drawn on it, unless drawing the title throws.\<close>

definition tryInitialState :: "pdfLibrary \<Rightarrow> geometry \<Rightarrow> string \<Rightarrow> error + layoutState" where
  "tryInitialState lib g textPath =
     (if canDraw lib (titleOf (fileNameOf textPath)) then Inr (initialState g textPath)
      else Inl EncodingError)"

fun tryStampFooters :: "pdfLibrary \<Rightarrow> geometry \<Rightarrow> nat \<Rightarrow> nat \<Rightarrow> page list \<Rightarrow> error + page list" where
  "tryStampFooters lib g pageCount i [] = Inr []"
| "tryStampFooters lib g pageCount i (p # ps) =
     (if canDraw lib (rtext (footerRun g i pageCount))
      then (case tryStampFooters lib g pageCount (i + 1) ps of
              Inl e \<Rightarrow> Inl e
            | Inr ps' \<Rightarrow> Inr ((p @ [footerRun g i pageCount]) # ps'))
      else Inl EncodingError)"

text \<open>
  \<^verbatim>\<open>convertTextToPdf\<close> with its exceptions: the error thrown, or the pages of the
  document that is saved.
\<close>

definition tryConvertTextToPdf :: "pdfLibrary \<Rightarrow> string \<Rightarrow> string \<Rightarrow> error + page list" where
  "tryConvertTextToPdf lib textPath textContent =
     (case tryInitialState lib default_geometry textPath of
        Inl e \<Rightarrow> Inl e
      | Inr st0 \<Rightarrow>
          (case tryLayoutParagraphs lib default_geometry st0 (splitParagraphs textContent) of
             Inl e \<Rightarrow> Inl e
           | Inr st \<Rightarrow>
               tryStampFooters lib default_geometry (length (docPages st)) 0 (docPages st)))"

section \<open>Notions used in the statements\<close>

text \<open>The words of a string: its pieces between white space, the empty ones left out.\<close>

definition wordsOf :: "string \<Rightarrow> string list" where
  "wordsOf s = filter (\<lambda>w. w \<noteq> []) (splitWs s)"


text \<open>Lines placed one below the other from a given height, one line height apart.\<close>

fun column :: "geometry \<Rightarrow> font \<Rightarrow> rat \<Rightarrow> rat \<Rightarrow> string list \<Rightarrow> textRun list" where
  "column g fnt sz ytop [] = []"
| "column g fnt sz ytop (line # lines) =
     lineRun g fnt sz ytop line # column g fnt sz (ytop - lineHeight g) lines"

text \<open>
  A measure for concrete inputs, so wide that two one-letter words never share a line of 512
  points.
\<close>

definition wideMeasure :: textMeasure where
  "wideMeasure fnt t sz = of_nat (length t) * 300"

text \<open>
  A library for concrete inputs: it encodes the printable ASCII characters, which the
  encoding of the standard fonts holds, rejects the others, draws the texts that it
  encodes, and measures widely.
\<close>

definition printableAscii :: "char \<Rightarrow> bool" where
  "printableAscii c = (32 \<le> (of_char c :: nat) \<and> (of_char c :: nat) \<le> 126)"

definition wideLibrary :: pdfLibrary where
  "wideLibrary = \<lparr>canEncode = printableAscii, canDraw = list_all printableAscii,
      widthOf = wideMeasure\<rparr>"

text \<open>All runs of the document under construction, in drawing order.\<close>

definition allRuns :: "layoutState \<Rightarrow> textRun list" where
  "allRuns st = concat (docPages st)"

text \<open>
  The invariant of the layout pass at the geometry of the source: every run drawn so far
  stands between the bottom margin and the top line of a page, and the cursor is not above
  that top line.
\<close>

definition aboveMargin :: "layoutState \<Rightarrow> bool" where
  "aboveMargin st = ((\<forall>r \<in> set (allRuns st). 50 \<le> ry r \<and> ry r \<le> 730) \<and> y st \<le> 730)"

section \<open>The geometry of the source\<close>

lemma default_geometry_simps [simp]:
  "pageWidth default_geometry = 612"
  "pageHeight default_geometry = 792"
  "margin default_geometry = 50"
  "fontSize default_geometry = 12"
  "smallFontSize default_geometry = 10"
  "titleFontSize default_geometry = 18"
  "lineHeight default_geometry = 18"
  "maxWidth default_geometry = 512"
  by (simp_all add: default_geometry_def lineHeight_def maxWidth_def)

section \<open>Heading classification\<close>

lemma endsWith_single: "endsWith s [c] = (s \<noteq> [] \<and> last s = c)"
  by (cases s rule: rev_cases) (simp_all add: endsWith_def)

lemma includesStr_single: "includesStr s [c] = (c \<in> set s)"
  by (induction s) auto

text \<open>A string is its own upper-casing exactly when none of its characters has another one.\<close>

lemma toUpperUnits_hd: "hd (toUpperUnits c) = of_char c \<longleftrightarrow> toUpperUnits c = [of_char c]"
  by (auto simp: toUpperUnits_def Let_def)

lemma toUpperUnits_not_Nil: "toUpperUnits c \<noteq> []"
  by (simp add: toUpperUnits_def Let_def)

lemma toUpperCase_fixed:
  "toUpperCase p = codeUnits p \<longleftrightarrow> (\<forall>c \<in> set p. toUpperUnits c = [of_char c])"
proof (induction p)
  case Nil
  then show ?case by (simp add: toUpperCase_def codeUnits_def)
next
  case (Cons c p)
  show ?case
  proof (cases "toUpperUnits c = [of_char c]")
    case True
    with Cons show ?thesis by (simp add: toUpperCase_def codeUnits_def)
  next
    case False
    then have "hd (toUpperUnits c) \<noteq> of_char c" by (simp add: toUpperUnits_hd)
    then have "hd (toUpperUnits c @ toUpperCase p) \<noteq> hd (of_char c # codeUnits p)"
      using toUpperUnits_not_Nil [of c] by simp
    then have "toUpperUnits c @ toUpperCase p \<noteq> of_char c # codeUnits p" by metis
    with False show ?thesis by (simp add: toUpperCase_def codeUnits_def)
  qed
qed

text \<open>
  Claim C6, as the code has it. A paragraph is a heading if and only if its length after
  trimming white space is below 80 and it ends with a colon, or holds no full stop, or is
  its own upper-casing, that is, holds no character that upper-casing changes. The three
  named examples are classified as stated, and a paragraph of 120 characters that ends in a
  colon and has no white space at either end is not a heading.
\<close>

theorem isHeading_rule:
  "(isHeading p \<longleftrightarrow>
      length (trim p) < 80 \<and>
      ((p \<noteq> [] \<and> last p = CHR '':'') \<or> CHR ''.'' \<notin> set p
       \<or> toUpperCase p = codeUnits p))
   \<and> (toUpperCase p = codeUnits p \<longleftrightarrow> (\<forall>c \<in> set p. toUpperUnits c = [of_char c]))
   \<and> isHeading ''Introduction:''
   \<and> isHeading ''SUMMARY''
   \<and> \<not> isHeading ''This is a normal sentence with a period.''
   \<and> (length p = 120 \<and> endsWith p '':'' \<and> trim p = p \<longrightarrow> \<not> isHeading p)"
proof -
  have rule: "isHeading p \<longleftrightarrow>
      length (trim p) < 80 \<and>
      ((p \<noteq> [] \<and> last p = CHR '':'') \<or> CHR ''.'' \<notin> set p
       \<or> toUpperCase p = codeUnits p)"
    by (simp add: isHeading_def endsWith_single includesStr_single)
  have e1: "isHeading ''Introduction:''"
    by code_simp
  have e2: "isHeading ''SUMMARY''"
    by code_simp
  have e3: "\<not> isHeading ''This is a normal sentence with a period.''"
    by code_simp
  have long: "length p = 120 \<and> endsWith p '':'' \<and> trim p = p \<longrightarrow> \<not> isHeading p"
    by (simp add: isHeading_def)
  from rule toUpperCase_fixed [of p] e1 e2 e3 long show ?thesis by blast
qed

theorem isHeading_rule_witness:
  "length (replicate 119 (CHR ''x'') @ '':'') = 120
   \<and> endsWith (replicate 119 (CHR ''x'') @ '':'') '':''
   \<and> trim (replicate 119 (CHR ''x'') @ '':'') = replicate 119 (CHR ''x'') @ '':''
   \<and> \<not> isHeading (replicate 119 (CHR ''x'') @ '':'')"
proof -
  have h: "length (replicate 119 (CHR ''x'') @ '':'') = 120
      \<and> endsWith (replicate 119 (CHR ''x'') @ '':'') '':''
      \<and> trim (replicate 119 (CHR ''x'') @ '':'') = replicate 119 (CHR ''x'') @ '':''"
    by code_simp
  with isHeading_rule [of "replicate 119 (CHR ''x'') @ '':''"] show ?thesis by blast
qed

text \<open>
  The claim as the specification words it, with the length of the paragraph itself, fails
  on a paragraph padded with white space: five letters followed by eighty spaces are one
  paragraph, a heading of length 85, and a colon-ended paragraph of 120 characters that
  starts with 110 spaces is a heading too.
\<close>

theorem isHeading_untrimmed_length_counterexample:
  "splitParagraphs (''Title'' @ replicate 80 (CHR '' '')) = [''Title'' @ replicate 80 (CHR '' '')]
   \<and> isHeading (''Title'' @ replicate 80 (CHR '' ''))
   \<and> length (''Title'' @ replicate 80 (CHR '' '')) = 85
   \<and> isHeading (replicate 110 (CHR '' '') @ ''Chapter 1:'')
   \<and> length (replicate 110 (CHR '' '') @ ''Chapter 1:'') = 120
   \<and> endsWith (replicate 110 (CHR '' '') @ ''Chapter 1:'') '':''"
  by code_simp

text \<open>
  Upper-casing beyond ASCII: a small e with acute accent has a capital, so a short paragraph
  holding it and a full stop is no heading, while the same with the capital letter is one.
\<close>

lemma isHeading_latin1_examples:
  "\<not> isHeading [CHR 0xE9, CHR ''.''] \<and> isHeading [CHR 0xC9, CHR ''.'']
   \<and> toUpperCase [CHR 0xDF, CHR 0xFF, CHR 0xB5, CHR 0xF7] = [83, 83, 376, 924, 247]"
  by code_simp

section \<open>Footers\<close>

lemma length_stampFooters: "length (stampFooters g n i ps) = length ps"
  by (induction ps arbitrary: i) simp_all

lemma nth_stampFooters:
  "k < length ps \<Longrightarrow> stampFooters g n i ps ! k = ps ! k @ [footerRun g (i + k) n]"
proof (induction ps arbitrary: i k)
  case Nil
  then show ?case by simp
next
  case (Cons p ps)
  show ?case
  proof (cases k)
    case 0
    then show ?thesis by simp
  next
    case (Suc j)
    with Cons.prems have "j < length ps" by simp
    from Cons.IH [OF this, of "i + 1"] Suc show ?thesis by simp
  qed
qed

lemma length_convertTextToPdfWith:
  "length (convertTextToPdfWith g wd textPath textContent)
     = length (docPages (layoutPass g wd textPath textContent))"
  by (simp add: convertTextToPdfWith_def Let_def length_stampFooters)

lemma nth_convertTextToPdfWith:
  assumes "k < length (docPages (layoutPass g wd textPath textContent))"
  shows "convertTextToPdfWith g wd textPath textContent ! k
     = docPages (layoutPass g wd textPath textContent) ! k
       @ [footerRun g k (length (docPages (layoutPass g wd textPath textContent)))]"
  using nth_stampFooters [OF assms, of g _ 0]
  by (simp add: convertTextToPdfWith_def Let_def)

text \<open>
  Claim C5. Page \<open>i + 1\<close> of the result ends with the footer \<open>Page (i + 1) of N\<close>, drawn at
  (50, 25) in size 10 and gray, where \<open>N\<close> is the number of pages of the result.
\<close>

theorem footer_on_every_page:
  assumes "i < length (convertTextToPdf wd textPath textContent)"
  shows "last (convertTextToPdf wd textPath textContent ! i) =
     \<lparr>rtext = ''Page '' @ showNat (i + 1) @ '' of ''
               @ showNat (length (convertTextToPdf wd textPath textContent)),
      rx = 50, ry = 25, rsize = 10, rfont = Helvetica, rcolor = Rgb (1 / 2) (1 / 2) (1 / 2)\<rparr>"
proof -
  let ?doc = "docPages (layoutPass default_geometry wd textPath textContent)"
  from assms have i: "i < length ?doc"
    by (simp add: convertTextToPdf_def length_convertTextToPdfWith)
  have "convertTextToPdf wd textPath textContent ! i
      = ?doc ! i @ [footerRun default_geometry i (length ?doc)]"
    unfolding convertTextToPdf_def by (rule nth_convertTextToPdfWith [OF i])
  then show ?thesis
    by (simp add: footerRun_def gray_def convertTextToPdf_def length_convertTextToPdfWith)
qed

theorem footer_on_every_page_witness:
  "0 < length (convertTextToPdf wideMeasure ''notes.txt'' ''a\<newline>\<newline>b'')
   \<and> last (convertTextToPdf wideMeasure ''notes.txt'' ''a\<newline>\<newline>b'' ! 0) =
     \<lparr>rtext = ''Page 1 of 1'', rx = 50, ry = 25, rsize = 10, rfont = Helvetica,
      rcolor = Rgb (1 / 2) (1 / 2) (1 / 2)\<rparr>"
proof -
  have h: "0 < length (convertTextToPdf wideMeasure ''notes.txt'' ''a\<newline>\<newline>b'')"
    by code_simp
  have n: "showNat (0 + 1) = ''1''
      \<and> showNat (length (convertTextToPdf wideMeasure ''notes.txt'' ''a\<newline>\<newline>b'')) = ''1''"
    by code_simp
  from footer_on_every_page [OF h] n h show ?thesis by simp
qed

section \<open>Words and lines\<close>

lemma splitWsFrom_dropWhile:
  "filter (\<lambda>w. w \<noteq> []) (splitWsFrom [] (dropWhile isSpace s))
     = filter (\<lambda>w. w \<noteq> []) (splitWsFrom [] s)"
  by (cases s) simp_all

lemma splitWsFrom_append_space:
  assumes "isSpace sp"
  shows "filter (\<lambda>w. w \<noteq> []) (splitWsFrom piece (a @ sp # b))
     = filter (\<lambda>w. w \<noteq> []) (splitWsFrom piece a) @ filter (\<lambda>w. w \<noteq> []) (splitWsFrom [] b)"
proof (induction a arbitrary: piece)
  case Nil
  show ?case using assms splitWsFrom_dropWhile [of b] by simp
next
  case (Cons c a)
  show ?case
  proof (cases "isSpace c")
    case True
    have "filter (\<lambda>w. w \<noteq> []) (splitWsFrom [] (dropWhile isSpace (a @ sp # b)))
        = filter (\<lambda>w. w \<noteq> []) (splitWsFrom [] a) @ filter (\<lambda>w. w \<noteq> []) (splitWsFrom [] b)"
      using splitWsFrom_dropWhile [of "a @ sp # b"] Cons.IH [of "[]"] by simp
    with True show ?thesis using splitWsFrom_dropWhile [of a] by simp
  next
    case False
    with Cons.IH [of "piece @ [c]"] show ?thesis by simp
  qed
qed


lemma splitWsFrom_pieces_no_space:
  "w \<in> set (splitWsFrom piece s) \<Longrightarrow> \<forall>c \<in> set piece. \<not> isSpace c \<Longrightarrow> \<forall>c \<in> set w. \<not> isSpace c"
proof (induction piece s rule: splitWsFrom.induct)
  case (1 piece)
  then show ?case by simp
next
  case (2 piece c cs)
  show ?case
  proof (cases "isSpace c")
    case True
    with "2.prems" have "w = piece \<or> w \<in> set (splitWsFrom [] (dropWhile isSpace cs))" by simp
    then show ?thesis using "2.IH"(1) [OF True] "2.prems"(2) by auto
  next
    case False
    with "2.prems" have "w \<in> set (splitWsFrom (piece @ [c]) cs)" by simp
    moreover have "\<forall>c \<in> set (piece @ [c]). \<not> isSpace c" using "2.prems"(2) False by simp
    ultimately show ?thesis using "2.IH"(2) [OF False] by blast
  qed
qed

lemma splitWs_no_space: "w \<in> set (splitWs s) \<Longrightarrow> \<forall>c \<in> set w. \<not> isSpace c"
  using splitWsFrom_pieces_no_space [of w "[]" s] by (simp add: splitWs_def)

lemma wordsOf_Nil: "wordsOf [] = []"
  by (simp add: wordsOf_def splitWs_def)






lemma allRuns_newPage: "allRuns (newPage g st) = allRuns st"
  by (simp add: allRuns_def docPages_def newPage_def)



lemma allRuns_y_update: "allRuns (st\<lparr>y := v\<rparr>) = allRuns st"
  by (simp add: allRuns_def docPages_def)



lemma butlast_stampFooters: "map butlast (stampFooters g n i ps) = ps"
  by (induction ps arbitrary: i) simp_all




section \<open>Line widths\<close>

lemma wrapLoop_widths:
  assumes "wrapLoop width maxW words lines cur = (lines', cur')"
    and "\<forall>l \<in> set lines. width l \<le> maxW \<or> l \<in> W"
    and "width cur \<le> maxW \<or> cur \<in> W"
    and "set words \<subseteq> W"
  shows "(\<forall>l \<in> set lines'. width l \<le> maxW \<or> l \<in> W) \<and> (width cur' \<le> maxW \<or> cur' \<in> W)"
  using assms
proof (induction words arbitrary: lines cur)
  case Nil
  then show ?case by simp
next
  case (Cons word words)
  let ?test = "if cur \<noteq> [] then cur @ '' '' @ word else word"
  from Cons.prems(4) have sub: "set words \<subseteq> W" and word: "word \<in> W" by simp_all
  show ?case
  proof (cases "width ?test \<le> maxW")
    case True
    with Cons.prems(1) have loop: "wrapLoop width maxW words lines ?test = (lines', cur')"
      by (simp add: Let_def)
    from True have "width ?test \<le> maxW \<or> ?test \<in> W" by blast
    from Cons.IH [OF loop Cons.prems(2) this sub] show ?thesis .
  next
    case False
    with Cons.prems(1) have loop: "wrapLoop width maxW words (lines @ [cur]) word = (lines', cur')"
      by (simp add: Let_def)
    have l: "\<forall>l \<in> set (lines @ [cur]). width l \<le> maxW \<or> l \<in> W"
      using Cons.prems(2,3) by auto
    from word have "width word \<le> maxW \<or> word \<in> W" by blast
    from Cons.IH [OF loop l this sub] show ?thesis .
  qed
qed

lemma wrapLines_widths:
  assumes "width [] \<le> maxW" and "line \<in> set (wrapLines width maxW words)"
  shows "width line \<le> maxW \<or> line \<in> set words"
proof -
  obtain lines cur where loop: "wrapLoop width maxW words [] [] = (lines, cur)"
    by (cases "wrapLoop width maxW words [] []")
  have "(\<forall>l \<in> set lines. width l \<le> maxW \<or> l \<in> set words)
      \<and> (width cur \<le> maxW \<or> cur \<in> set words)"
    by (rule wrapLoop_widths [OF loop]) (use assms(1) in simp_all)
  moreover from assms(2) loop have "line \<in> set lines \<or> line = cur"
    by (auto simp: wrapLines_def split: if_splits)
  ultimately show ?thesis by blast
qed

lemma wrapLoop_overlong:
  assumes "wrapLoop width maxW words lines cur = (lines', cur')"
    and empty: "width [] \<le> maxW"
    and left: "\<And>a b. width a \<le> width (a @ '' '' @ b)"
    and right: "\<And>a b. width b \<le> width (a @ '' '' @ b)"
    and "\<forall>w \<in> S. maxW < width w \<longrightarrow> w \<in> set lines \<or> cur = w"
  shows "\<forall>w \<in> S \<union> set words. maxW < width w \<longrightarrow> w \<in> set lines' \<or> cur' = w"
  using assms(1,5)
proof (induction words arbitrary: lines cur S)
  case Nil
  then show ?case by simp
next
  case (Cons word words)
  let ?test = "if cur \<noteq> [] then cur @ '' '' @ word else word"
  show ?case
  proof (cases "width ?test \<le> maxW")
    case True
    with Cons.prems(1) have loop: "wrapLoop width maxW words lines ?test = (lines', cur')"
      by (simp add: Let_def)
    have word: "width word \<le> maxW"
      using True right [of word cur] by (cases "cur = []") auto
    have cur: "width cur \<le> maxW"
      using True left [of cur word] empty by (cases "cur = []") auto
    have "\<forall>w \<in> insert word S. maxW < width w \<longrightarrow> w \<in> set lines \<or> ?test = w"
      using Cons.prems(2) word cur by auto
    from Cons.IH [OF loop this] show ?thesis by simp
  next
    case False
    with Cons.prems(1) have loop: "wrapLoop width maxW words (lines @ [cur]) word = (lines', cur')"
      by (simp add: Let_def)
    have "\<forall>w \<in> insert word S. maxW < width w \<longrightarrow> w \<in> set (lines @ [cur]) \<or> word = w"
      using Cons.prems(2) by auto
    from Cons.IH [OF loop this] show ?thesis by simp
  qed
qed

lemma wrapLines_overlong:
  assumes empty: "width [] \<le> maxW"
    and left: "\<And>a b. width a \<le> width (a @ '' '' @ b)"
    and right: "\<And>a b. width b \<le> width (a @ '' '' @ b)"
    and "w \<in> set words" and "maxW < width w"
  shows "w \<in> set (wrapLines width maxW words)"
proof -
  obtain lines cur where loop: "wrapLoop width maxW words [] [] = (lines, cur)"
    by (cases "wrapLoop width maxW words [] []")
  have "\<forall>w \<in> {} \<union> set words. maxW < width w \<longrightarrow> w \<in> set lines \<or> cur = w"
    using wrapLoop_overlong [of width maxW words "[]" "[]" lines cur "{}", OF loop empty left right]
    by simp
  with assms(4,5) have "w \<in> set lines \<or> cur = w" by simp
  moreover from assms(5) empty have "w \<noteq> []" by auto
  ultimately show ?thesis using loop by (auto simp: wrapLines_def)
qed

text \<open>
  Claim C4. Let the empty string fit the usable width. Then every line of a paragraph
  either fits the usable width, measured in the font and size of the paragraph, or is a
  single word of the paragraph that is itself too wide. If moreover joining two strings
  with a space never makes them narrower, every word that is too wide is a line by itself.
\<close>

theorem line_width_bound:
  assumes "lineWidth g wd p [] \<le> maxWidth g"
  shows "(\<forall>line \<in> set (paragraphLines g wd p).
            lineWidth g wd p line \<le> maxWidth g
            \<or> (line \<in> set (splitWs p) \<and> maxWidth g < lineWidth g wd p line))
       \<and> ((\<forall>a b. lineWidth g wd p a \<le> lineWidth g wd p (a @ '' '' @ b)
                  \<and> lineWidth g wd p b \<le> lineWidth g wd p (a @ '' '' @ b))
            \<longrightarrow> (\<forall>w \<in> set (splitWs p).
                   maxWidth g < lineWidth g wd p w \<longrightarrow> w \<in> set (paragraphLines g wd p)))"
proof (intro conjI ballI impI)
  fix line
  assume "line \<in> set (paragraphLines g wd p)"
  then have "lineWidth g wd p line \<le> maxWidth g \<or> line \<in> set (splitWs p)"
    unfolding paragraphLines_def
    using wrapLines_widths [of "lineWidth g wd p" "maxWidth g" line "splitWs p"] assms by simp
  then show "lineWidth g wd p line \<le> maxWidth g
      \<or> (line \<in> set (splitWs p) \<and> maxWidth g < lineWidth g wd p line)"
    by auto
next
  fix w
  assume mono: "\<forall>a b. lineWidth g wd p a \<le> lineWidth g wd p (a @ '' '' @ b)
                  \<and> lineWidth g wd p b \<le> lineWidth g wd p (a @ '' '' @ b)"
    and w: "w \<in> set (splitWs p)" "maxWidth g < lineWidth g wd p w"
  show "w \<in> set (paragraphLines g wd p)"
    unfolding paragraphLines_def
    using wrapLines_overlong [of "lineWidth g wd p" "maxWidth g" w "splitWs p"] assms mono w
    by simp
qed

theorem line_width_bound_witness:
  "lineWidth default_geometry wideMeasure ''a bb c'' [] \<le> maxWidth default_geometry
   \<and> ''bb'' \<in> set (splitWs ''a bb c'')
   \<and> maxWidth default_geometry < lineWidth default_geometry wideMeasure ''a bb c'' ''bb''
   \<and> ''bb'' \<in> set (paragraphLines default_geometry wideMeasure ''a bb c'')
   \<and> ''a'' \<in> set (paragraphLines default_geometry wideMeasure ''a bb c'')
   \<and> lineWidth default_geometry wideMeasure ''a bb c'' ''a'' \<le> maxWidth default_geometry"
proof -
  have e: "lineWidth default_geometry wideMeasure ''a bb c'' [] \<le> maxWidth default_geometry"
    by (simp add: lineWidth_def wideMeasure_def)
  have m: "\<forall>a b. lineWidth default_geometry wideMeasure ''a bb c'' a
              \<le> lineWidth default_geometry wideMeasure ''a bb c'' (a @ '' '' @ b)
            \<and> lineWidth default_geometry wideMeasure ''a bb c'' b
              \<le> lineWidth default_geometry wideMeasure ''a bb c'' (a @ '' '' @ b)"
    by (simp add: lineWidth_def wideMeasure_def)
  have w: "''bb'' \<in> set (splitWs ''a bb c'')"
    by code_simp
  have o: "maxWidth default_geometry < lineWidth default_geometry wideMeasure ''a bb c'' ''bb''"
    by (simp add: lineWidth_def wideMeasure_def)
  have a: "''a'' \<in> set (paragraphLines default_geometry wideMeasure ''a bb c'')"
    by code_simp
  have f: "lineWidth default_geometry wideMeasure ''a bb c'' ''a'' \<le> maxWidth default_geometry"
    by (simp add: lineWidth_def wideMeasure_def)
  from line_width_bound [OF e] m w o a f e show ?thesis by blast
qed

section \<open>Drawing lines down a page\<close>

lemma drawLine_stay:
  assumes "\<not> y st - lineHeight g < margin g"
  shows "drawLine g fnt sz st line
     = st\<lparr>currentPage := currentPage st @ [lineRun g fnt sz (y st) line],
          y := y st - lineHeight g\<rparr>"
  using assms by (simp add: drawLine_def drawText_def Let_def)

lemma drawLine_break:
  assumes "y st - lineHeight g < margin g"
  shows "drawLine g fnt sz st line
     = \<lparr>donePages = donePages st @ [currentPage st @ [lineRun g fnt sz (y st) line]],
        currentPage = [], y = pageHeight g - margin g - fontSize g\<rparr>"
  using assms by (simp add: drawLine_def drawText_def newPage_def Let_def)

lemma drawLines_append:
  "drawLines g fnt sz st (xs @ ys) = drawLines g fnt sz (drawLines g fnt sz st xs) ys"
  by (induction xs arbitrary: st) simp_all

lemma column_append:
  "column g fnt sz ytop (xs @ ys)
     = column g fnt sz ytop xs
       @ column g fnt sz (ytop - of_nat (length xs) * lineHeight g) ys"
  by (induction xs arbitrary: ytop) (simp_all add: algebra_simps)

text \<open>When the block of lines fits above the margin, no page is started.\<close>

lemma drawLines_fit:
  assumes "margin g \<le> y st - of_nat (length lines) * lineHeight g" and "0 \<le> lineHeight g"
  shows "drawLines g fnt sz st lines
     = st\<lparr>currentPage := currentPage st @ column g fnt sz (y st) lines,
          y := y st - of_nat (length lines) * lineHeight g\<rparr>"
  using assms(1)
proof (induction lines arbitrary: st)
  case Nil
  then show ?case by simp
next
  case (Cons line lines)
  let ?st' = "st\<lparr>currentPage := currentPage st @ [lineRun g fnt sz (y st) line],
          y := y st - lineHeight g\<rparr>"
  from Cons.prems have fit: "margin g \<le> y st - lineHeight g - of_nat (length lines) * lineHeight g"
    by (simp add: algebra_simps)
  moreover have "0 \<le> of_nat (length lines) * lineHeight g"
    using assms(2) by simp
  ultimately have "\<not> y st - lineHeight g < margin g" by linarith
  then have step: "drawLine g fnt sz st line = ?st'" by (rule drawLine_stay)
  from fit have "margin g \<le> y ?st' - of_nat (length lines) * lineHeight g" by simp
  from Cons.IH [OF this] step show ?case by (simp add: algebra_simps)
qed

text \<open>At the geometry of the source a fresh page takes 38 lines; the 38th starts the next page.\<close>

lemma drawLines_full_page:
  assumes "y st = 730" and "length lines = 38"
  shows "drawLines default_geometry fnt sz st lines
     = \<lparr>donePages = donePages st @ [currentPage st @ column default_geometry fnt sz 730 lines],
        currentPage = [], y = 730\<rparr>"
proof -
  from assms(2) obtain front l where split: "lines = front @ [l]"
    by (cases lines rule: rev_cases) auto
  with assms(2) have len: "length front = 37" by simp
  let ?st1 = "st\<lparr>currentPage := currentPage st @ column default_geometry fnt sz (y st) front,
          y := y st - of_nat (length front) * lineHeight default_geometry\<rparr>"
  have front: "drawLines default_geometry fnt sz st front = ?st1"
    by (rule drawLines_fit) (simp_all add: len assms(1))
  have "drawLine default_geometry fnt sz ?st1 l
     = \<lparr>donePages = donePages ?st1
          @ [currentPage ?st1 @ [lineRun default_geometry fnt sz (y ?st1) l]],
        currentPage = [],
        y = pageHeight default_geometry - margin default_geometry - fontSize default_geometry\<rparr>"
    by (rule drawLine_break) (simp add: len assms(1))
  moreover have "column default_geometry fnt sz 730 lines
      = column default_geometry fnt sz 730 front @ [lineRun default_geometry fnt sz 64 l]"
    using column_append [of default_geometry fnt sz 730 front "[l]"] split len by simp
  ultimately have "drawLine default_geometry fnt sz ?st1 l
     = \<lparr>donePages = donePages st @ [currentPage st @ column default_geometry fnt sz 730 lines],
        currentPage = [], y = 730\<rparr>"
    by (simp add: len assms(1))
  moreover have "drawLines default_geometry fnt sz st lines
      = drawLine default_geometry fnt sz (drawLines default_geometry fnt sz st front) l"
    using drawLines_append [of default_geometry fnt sz st front "[l]"] split by simp
  ultimately show ?thesis using front by simp
qed

lemma length_docPages: "length (docPages st) = Suc (length (donePages st))"
  by (simp add: docPages_def)

lemma drawLines_page_count:
  assumes "y st = 730"
  shows "length (docPages (drawLines default_geometry fnt sz st lines))
     = length (docPages st) + length lines div 38"
  using assms
proof (induction "length lines" arbitrary: lines st rule: less_induct)
  case less
  show ?case
  proof (cases "length lines < 38")
    case True
    then have "margin default_geometry
        \<le> y st - of_nat (length lines) * lineHeight default_geometry"
      using less.prems by simp
    then have "drawLines default_geometry fnt sz st lines
        = st\<lparr>currentPage := currentPage st @ column default_geometry fnt sz (y st) lines,
             y := y st - of_nat (length lines) * lineHeight default_geometry\<rparr>"
      by (rule drawLines_fit) simp
    with True show ?thesis by (simp add: length_docPages)
  next
    case False
    let ?a = "take 38 lines" and ?b = "drop 38 lines"
    let ?st' = "\<lparr>donePages = donePages st @ [currentPage st @ column default_geometry fnt sz 730 ?a],
        currentPage = [], y = 730\<rparr>"
    from False have la: "length ?a = 38" by simp
    have a: "drawLines default_geometry fnt sz st ?a = ?st'"
      by (rule drawLines_full_page [OF less.prems la])
    have "drawLines default_geometry fnt sz st lines = drawLines default_geometry fnt sz ?st' ?b"
      using drawLines_append [of default_geometry fnt sz st ?a ?b] a by simp
    moreover have "length (docPages (drawLines default_geometry fnt sz ?st' ?b))
        = length (docPages ?st') + length ?b div 38"
      by (rule less.hyps) (use False in simp_all)
    moreover have "length lines div 38 = Suc ((length lines - 38) div 38)"
      using False by (simp add: le_div_geq)
    ultimately show ?thesis by (simp add: length_docPages)
  qed
qed

lemma docPages_y_update: "docPages (st\<lparr>y := v\<rparr>) = docPages st"
  by (simp add: docPages_def)

lemma docPages_newPage: "docPages (newPage g st) = docPages st @ [[]]"
  by (simp add: docPages_def newPage_def)

lemma paragraph_page_count:
  assumes "trim p \<noteq> []"
  shows "length (docPages (layoutParagraph default_geometry wd st p))
     = length (docPages st)
       + (if y st - of_nat (length (paragraphLines default_geometry wd p)) * 18 < 50
          then 1 + length (paragraphLines default_geometry wd p) div 38 else 0)"
proof (cases "y st - of_nat (length (paragraphLines default_geometry wd p)) * 18 < 50")
  case True
  have "y (newPage default_geometry st) = 730" by (simp add: newPage_def)
  from drawLines_page_count [OF this] True assms show ?thesis
    by (simp add: layoutParagraph_def Let_def docPages_y_update docPages_newPage)
next
  case False
  then have "margin default_geometry
      \<le> y st - of_nat (length (paragraphLines default_geometry wd p)) * lineHeight default_geometry"
    by simp
  from drawLines_fit [OF this] False assms show ?thesis
    by (simp add: layoutParagraph_def Let_def docPages_def)
qed

section \<open>When pages are started\<close>

text \<open>
  Claim C1, as the code has it. Pages are started in two places. After a line has been
  drawn and the cursor moved down by one line height, a page is started exactly when the
  cursor is below the margin. Before the first
  line of a paragraph a page is started exactly when the whole block of its lines, computed
  beforehand, does not fit above the margin. So a paragraph of \<open>n\<close> lines adds pages only
  when its block does not fit, and then \<open>1 + n div 38\<close> of them.
\<close>

theorem new_page_rule:
  "length (docPages (drawLine default_geometry fnt sz st line))
     = length (docPages st) + (if y st - 18 < 50 then 1 else 0)
   \<and> (trim p \<noteq> [] \<longrightarrow>
        length (docPages (layoutParagraph default_geometry wd st p))
          = length (docPages st)
            + (if y st - of_nat (length (paragraphLines default_geometry wd p)) * 18 < 50
               then 1 + length (paragraphLines default_geometry wd p) div 38 else 0))"
proof -
  have "length (docPages (drawLine default_geometry fnt sz st line))
     = length (docPages st) + (if y st - 18 < 50 then 1 else 0)"
    by (simp add: drawLine_def drawText_def newPage_def Let_def docPages_def)
  then show ?thesis using paragraph_page_count [of p wd st] by blast
qed

theorem new_page_rule_witness:
  "trim ''a a a a a a a a a a a a a a a a a a a a a a a a a a a a a a a a a a a a'' \<noteq> []
   \<and> length (docPages (layoutParagraph default_geometry wideMeasure
        (initialState default_geometry ''doc.txt'')
        ''a a a a a a a a a a a a a a a a a a a a a a a a a a a a a a a a a a a a'')) = 2"
proof -
  let ?p = "''a a a a a a a a a a a a a a a a a a a a a a a a a a a a a a a a a a a a''"
  have t: "trim ?p \<noteq> []" by code_simp
  have n: "length (paragraphLines default_geometry wideMeasure ?p) = 36" by code_simp
  have s: "y (initialState default_geometry ''doc.txt'') = 697
      \<and> length (docPages (initialState default_geometry ''doc.txt'')) = 1"
    by (simp add: initialState_def docPages_def)
  from new_page_rule [of _ _ "initialState default_geometry ''doc.txt''" _ ?p wideMeasure] t
  show ?thesis by (simp add: n s)
qed

text \<open>
  The claim as worded fails on a first paragraph of 36 lines. The cursor stands at 697 and
  the page has room for all 36 lines, the last at 67, above the margin of 50. Yet the test
  over the whole block, 697 - 36 * 18 < 50, starts a second page before the first line:
  the first page keeps only the title and its footer, and the lines start at 730 on the
  second page.
\<close>

theorem page_started_with_room_left_counterexample:
  "map (map rtext) (convertTextToPdf wideMeasure ''doc.txt''
      ''a a a a a a a a a a a a a a a a a a a a a a a a a a a a a a a a a a a a'')
     = [[''doc'', ''Page 1 of 2''], replicate 36 ''a'' @ [''Page 2 of 2'']]
   \<and> ry (hd (convertTextToPdf wideMeasure ''doc.txt''
      ''a a a a a a a a a a a a a a a a a a a a a a a a a a a a a a a a a a a a'' ! 1)) = 730
   \<and> y (initialState default_geometry ''doc.txt'') = 697
   \<and> margin default_geometry
        \<le> y (initialState default_geometry ''doc.txt'') - 35 * lineHeight default_geometry"
  by code_simp

section \<open>Paragraphs that fit a page\<close>

text \<open>
  Claim C9. Before any line of a paragraph is drawn the whole block of its lines is tested
  against the margin. A paragraph of at most 38 lines is placed on one page: on the
  current page below the cursor when the block fits, and otherwise on a fresh page from 730
  downwards. With exactly 38 lines on a fresh page, an empty page follows.
\<close>

theorem short_paragraph_on_one_page:
  assumes "trim p \<noteq> []" and "length (paragraphLines default_geometry wd p) \<le> 38"
  shows "docPages (layoutParagraph default_geometry wd st p) =
     (if y st - of_nat (length (paragraphLines default_geometry wd p)) * 18 < 50
      then donePages st
           @ [currentPage st,
              column default_geometry (paragraphFont p) (paragraphSize default_geometry p) 730
                (paragraphLines default_geometry wd p)]
           @ (if length (paragraphLines default_geometry wd p) = 38 then [[]] else [])
      else donePages st
           @ [currentPage st
              @ column default_geometry (paragraphFont p) (paragraphSize default_geometry p)
                  (y st) (paragraphLines default_geometry wd p)])"
proof -
  let ?lines = "paragraphLines default_geometry wd p"
  let ?fnt = "paragraphFont p" and ?sz = "paragraphSize default_geometry p"
  show ?thesis
  proof (cases "y st - of_nat (length ?lines) * 18 < 50")
    case False
    then have "margin default_geometry \<le> y st - of_nat (length ?lines) * lineHeight default_geometry"
      by simp
    from drawLines_fit [OF this, of ?fnt ?sz] False assms(1) show ?thesis
      by (simp add: layoutParagraph_def Let_def docPages_def)
  next
    case True
    let ?st1 = "newPage default_geometry st"
    have y1: "y ?st1 = 730" by (simp add: newPage_def)
    show ?thesis
    proof (cases "length ?lines = 38")
      case full: True
      from drawLines_full_page [OF y1 full, of ?fnt ?sz] True full assms(1) show ?thesis
        by (simp add: layoutParagraph_def Let_def docPages_def newPage_def)
    next
      case False
      with assms(2) have "length ?lines \<le> 37" by simp
      then have "rat_of_nat (length ?lines) \<le> 37" by simp
      then have "margin default_geometry
          \<le> y ?st1 - of_nat (length ?lines) * lineHeight default_geometry"
        by (simp add: y1)
      from drawLines_fit [OF this, of ?fnt ?sz] True False assms(1) show ?thesis
        by (simp add: layoutParagraph_def Let_def docPages_def newPage_def)
    qed
  qed
qed

theorem short_paragraph_on_one_page_witness:
  "trim ''a b'' \<noteq> []
   \<and> length (paragraphLines default_geometry wideMeasure ''a b'') \<le> 38
   \<and> docPages (layoutParagraph default_geometry wideMeasure
        \<lparr>donePages = [], currentPage = [], y = 60\<rparr> ''a b'')
      = [[], [lineRun default_geometry HelveticaBold (72 / 5) 730 ''a'',
              lineRun default_geometry HelveticaBold (72 / 5) 712 ''b'']]"
proof -
  have t: "trim ''a b'' \<noteq> []" by code_simp
  have n: "length (paragraphLines default_geometry wideMeasure ''a b'') \<le> 38" by code_simp
  have l: "paragraphLines default_geometry wideMeasure ''a b'' = [''a'', ''b'']
      \<and> paragraphFont ''a b'' = HelveticaBold
      \<and> paragraphSize default_geometry ''a b'' = 72 / 5"
    by code_simp
  from short_paragraph_on_one_page [OF t n, of "\<lparr>donePages = [], currentPage = [], y = 60\<rparr>"]
  show ?thesis using t n by (simp add: l)
qed

section \<open>The bottom margin\<close>

lemma aboveMargin_newPage: "aboveMargin st \<Longrightarrow> aboveMargin (newPage default_geometry st)"
  by (simp add: aboveMargin_def allRuns_newPage) (simp add: newPage_def)

lemma aboveMargin_drawLine:
  assumes "aboveMargin st" and "50 \<le> y st"
  shows "aboveMargin (drawLine default_geometry fnt sz st line)
     \<and> 50 \<le> y (drawLine default_geometry fnt sz st line)"
proof (cases "y st - lineHeight default_geometry < margin default_geometry")
  case True
  from drawLine_break [OF True, of fnt sz line] assms show ?thesis
    by (auto simp: aboveMargin_def allRuns_def docPages_def lineRun_def)
next
  case False
  from drawLine_stay [OF False, of fnt sz line] assms False show ?thesis
    by (auto simp: aboveMargin_def allRuns_def docPages_def lineRun_def)
qed

lemma aboveMargin_drawLines:
  assumes "aboveMargin st" and "50 \<le> y st"
  shows "aboveMargin (drawLines default_geometry fnt sz st lines)"
  using assms
proof (induction lines arbitrary: st)
  case Nil
  then show ?case by simp
next
  case (Cons line lines)
  from aboveMargin_drawLine [OF Cons.prems, of fnt sz line] Cons.IH show ?case by simp
qed

lemma aboveMargin_y_down: "aboveMargin st \<Longrightarrow> 0 \<le> d \<Longrightarrow> aboveMargin (st\<lparr>y := y st - d\<rparr>)"
  by (simp add: aboveMargin_def allRuns_y_update)

lemma aboveMargin_layoutParagraph:
  assumes "aboveMargin st"
  shows "aboveMargin (layoutParagraph default_geometry wd st p)"
proof (cases "trim p = []")
  case True
  with assms show ?thesis by (simp add: layoutParagraph_def)
next
  case False
  let ?lines = "paragraphLines default_geometry wd p"
  let ?st1 = "if y st - of_nat (length ?lines) * lineHeight default_geometry < margin default_geometry
      then newPage default_geometry st else st"
  have inv1: "aboveMargin ?st1" using assms by (simp add: aboveMargin_newPage)
  have "0 \<le> rat_of_nat (length ?lines) * 18" by simp
  then have y1: "50 \<le> y ?st1" by (simp add: newPage_def)
  have "aboveMargin (drawLines default_geometry (paragraphFont p)
      (paragraphSize default_geometry p) ?st1 ?lines)"
    by (rule aboveMargin_drawLines [OF inv1 y1])
  from aboveMargin_y_down [OF this, of 12] False show ?thesis
    by (simp add: layoutParagraph_def Let_def)
qed

lemma aboveMargin_layoutParagraphs:
  "aboveMargin st \<Longrightarrow> aboveMargin (layoutParagraphs default_geometry wd st ps)"
  unfolding layoutParagraphs_def
  by (induction ps arbitrary: st) (simp_all add: aboveMargin_layoutParagraph)

lemma aboveMargin_initialState: "aboveMargin (initialState default_geometry textPath)"
  by (simp add: aboveMargin_def allRuns_def docPages_def initialState_def titleRun_def)

lemma aboveMargin_layoutPass: "aboveMargin (layoutPass default_geometry wd textPath textContent)"
  unfolding layoutPass_def
  by (rule aboveMargin_layoutParagraphs [OF aboveMargin_initialState])

text \<open>
  Claim C8. Every run drawn by the layout pass, that is every run of a page of the result
  but its footer, stands at or above the bottom margin of 50 and at or below 730, the
  height where a fresh page starts.
\<close>

theorem no_line_below_margin:
  "\<forall>page \<in> set (convertTextToPdf wd textPath textContent).
     \<forall>r \<in> set (butlast page). 50 \<le> ry r \<and> ry r \<le> 730"
proof (intro ballI)
  fix page r
  assume page: "page \<in> set (convertTextToPdf wd textPath textContent)"
    and r: "r \<in> set (butlast page)"
  let ?doc = "docPages (layoutPass default_geometry wd textPath textContent)"
  from page have "butlast page \<in> set (map butlast (stampFooters default_geometry (length ?doc) 0 ?doc))"
    by (simp add: convertTextToPdf_def convertTextToPdfWith_def Let_def)
  then have "butlast page \<in> set ?doc" by (simp only: butlast_stampFooters)
  with r have "r \<in> set (allRuns (layoutPass default_geometry wd textPath textContent))"
    by (auto simp: allRuns_def)
  with aboveMargin_layoutPass [of wd textPath textContent]
  show "50 \<le> ry r \<and> ry r \<le> 730" by (simp add: aboveMargin_def)
qed

theorem no_line_below_margin_witness:
  "convertTextToPdf wideMeasure ''doc.txt''
      ''a a a a a a a a a a a a a a a a a a a a a a a a a a a a a a a a a a a a a a a a a a'' ! 1
     \<in> set (convertTextToPdf wideMeasure ''doc.txt''
      ''a a a a a a a a a a a a a a a a a a a a a a a a a a a a a a a a a a a a a a a a a a'')
   \<and> convertTextToPdf wideMeasure ''doc.txt''
      ''a a a a a a a a a a a a a a a a a a a a a a a a a a a a a a a a a a a a a a a a a a'' ! 1 ! 37
     \<in> set (butlast (convertTextToPdf wideMeasure ''doc.txt''
      ''a a a a a a a a a a a a a a a a a a a a a a a a a a a a a a a a a a a a a a a a a a'' ! 1))
   \<and> 50 \<le> ry (convertTextToPdf wideMeasure ''doc.txt''
      ''a a a a a a a a a a a a a a a a a a a a a a a a a a a a a a a a a a a a a a a a a a'' ! 1 ! 37)"
proof -
  let ?doc = "convertTextToPdf wideMeasure ''doc.txt''
      ''a a a a a a a a a a a a a a a a a a a a a a a a a a a a a a a a a a a a a a a a a a''"
  have p: "?doc ! 1 \<in> set ?doc" by code_simp
  have r: "?doc ! 1 ! 37 \<in> set (butlast (?doc ! 1))" by code_simp
  from no_line_below_margin [of wideMeasure "''doc.txt''"
      "''a a a a a a a a a a a a a a a a a a a a a a a a a a a a a a a a a a a a a a a a a a''"] p r
  show ?thesis by blast
qed

section \<open>Pages only grow\<close>

text \<open>
  The pass never touches a page behind the current one, and it only appends runs to the
  current page. The lemmas below keep the shape \<open>D @ (C @ extra) # pages\<close> of the document.
\<close>

lemma continues_trans:
  assumes "docPages st' = D @ (C @ e) # ps"
    and "docPages st'' = donePages st' @ (currentPage st' @ e') # ps'"
  shows "\<exists>e'' ps''. docPages st'' = D @ (C @ e'') # ps''"
proof (cases ps rule: rev_cases)
  case Nil
  with assms(1) have "donePages st' = D" and "currentPage st' = C @ e"
    by (simp_all add: docPages_def)
  with assms(2) have "docPages st'' = D @ (C @ (e @ e')) # ps'" by simp
  then show ?thesis by blast
next
  case (snoc qs q)
  with assms(1) have "donePages st' @ [currentPage st'] = (D @ (C @ e) # qs) @ [q]"
    by (simp add: docPages_def)
  then have "donePages st' = D @ (C @ e) # qs" by (simp only: append1_eq_conv)
  with assms(2) have "docPages st'' = D @ (C @ e) # (qs @ (currentPage st' @ e') # ps')"
    by simp
  then show ?thesis by blast
qed

lemma docPages_drawLine:
  "docPages (drawLine g fnt sz st line)
     = donePages st @ (currentPage st @ [lineRun g fnt sz (y st) line])
         # (if y st - lineHeight g < margin g then [[]] else [])"
  by (simp add: drawLine_def drawText_def newPage_def Let_def docPages_def)

lemma drawLines_continues:
  "\<exists>e ps. docPages (drawLines g fnt sz st lines) = donePages st @ (currentPage st @ e) # ps"
proof (induction lines arbitrary: st)
  case Nil
  have "docPages st = donePages st @ (currentPage st @ []) # []" by (simp add: docPages_def)
  then show ?case by (simp del: append_Nil2)
next
  case (Cons line lines)
  let ?st' = "drawLine g fnt sz st line"
  from Cons.IH [of ?st'] obtain e' ps' where
    rest: "docPages (drawLines g fnt sz ?st' lines) = donePages ?st' @ (currentPage ?st' @ e') # ps'"
    by blast
  from continues_trans [OF docPages_drawLine rest] show ?case by simp
qed

lemma layoutParagraph_continues:
  "\<exists>e ps. docPages (layoutParagraph g wd st p) = donePages st @ (currentPage st @ e) # ps"
proof (cases "trim p = []")
  case True
  have "docPages st = donePages st @ (currentPage st @ []) # []" by (simp add: docPages_def)
  with True show ?thesis unfolding layoutParagraph_def by (simp del: append_Nil2)
next
  case False
  let ?lines = "paragraphLines g wd p"
  let ?st1 = "if y st - of_nat (length ?lines) * lineHeight g < margin g then newPage g st else st"
  have first: "docPages ?st1 = donePages st @ (currentPage st @ [])
      # (if y st - of_nat (length ?lines) * lineHeight g < margin g then [[]] else [])"
    by (simp add: docPages_def newPage_def)
  obtain e ps where "docPages (drawLines g (paragraphFont p) (paragraphSize g p) ?st1 ?lines)
      = donePages ?st1 @ (currentPage ?st1 @ e) # ps"
    using drawLines_continues by blast
  from continues_trans [OF first this] False show ?thesis
    by (simp add: layoutParagraph_def Let_def docPages_y_update)
qed

lemma layoutParagraphs_continues:
  "\<exists>e ps. docPages (layoutParagraphs g wd st paragraphs)
     = donePages st @ (currentPage st @ e) # ps"
proof (induction paragraphs arbitrary: st)
  case Nil
  have "docPages st = donePages st @ (currentPage st @ []) # []" by (simp add: docPages_def)
  then show ?case unfolding layoutParagraphs_def by (simp del: append_Nil2)
next
  case (Cons p paragraphs)
  let ?st' = "layoutParagraph g wd st p"
  obtain e ps where one: "docPages ?st' = donePages st @ (currentPage st @ e) # ps"
    using layoutParagraph_continues by blast
  from Cons.IH [of ?st'] obtain e' ps' where
    "docPages (layoutParagraphs g wd ?st' paragraphs)
       = donePages ?st' @ (currentPage ?st' @ e') # ps'"
    by blast
  from continues_trans [OF one this] show ?case by (simp add: layoutParagraphs_def)
qed

section \<open>A first word wider than the page\<close>

lemma wrapLoop_grows:
  assumes "wrapLoop width maxW words lines cur = (lines', cur')"
  shows "\<exists>more x. lines' = lines @ more \<and> (if more = [] then cur' = cur @ x else hd more = cur @ x)"
  using assms
proof (induction words arbitrary: lines cur)
  case Nil
  then have same: "lines' = lines" "cur' = cur" by simp_all
  show ?case
    by (rule exI [of _ "[] :: string list"], rule exI [of _ "[] :: string"]) (simp add: same)
next
  case (Cons word words)
  let ?test = "if cur \<noteq> [] then cur @ '' '' @ word else word"
  obtain t where test: "?test = cur @ t" by (cases "cur = []") auto
  show ?case
  proof (cases "width ?test \<le> maxW")
    case True
    with Cons.prems have "wrapLoop width maxW words lines ?test = (lines', cur')"
      by (simp add: Let_def)
    from Cons.IH [OF this] obtain more x where
      "lines' = lines @ more" "if more = [] then cur' = ?test @ x else hd more = ?test @ x"
      by blast
    with test have "lines' = lines @ more
        \<and> (if more = [] then cur' = cur @ (t @ x) else hd more = cur @ (t @ x))"
      by (simp split: if_splits)
    then show ?thesis by blast
  next
    case False
    with Cons.prems have "wrapLoop width maxW words (lines @ [cur]) word = (lines', cur')"
      by (simp add: Let_def)
    from Cons.IH [OF this] obtain more where "lines' = (lines @ [cur]) @ more" by blast
    then have "lines' = lines @ (cur # more)
        \<and> (if cur # more = [] then cur' = cur @ [] else hd (cur # more) = cur @ [])"
      by simp
    then show ?thesis by blast
  qed
qed

lemma wrapLines_overlong_first:
  assumes "maxW < width w" and "width [] \<le> maxW"
  shows "\<exists>l rest. wrapLines width maxW (w # ws) = [] # l # rest \<and> take (length w) l = w"
proof -
  from assms have w: "w \<noteq> []" by auto
  obtain lines' cur' where loop: "wrapLoop width maxW ws [[]] w = (lines', cur')"
    by (cases "wrapLoop width maxW ws [[]] w")
  from assms(1) have start: "wrapLoop width maxW (w # ws) [] [] = (lines', cur')"
    using loop by simp
  from wrapLoop_grows [OF loop] obtain more x where
    more: "lines' = [[]] @ more" "if more = [] then cur' = w @ x else hd more = w @ x"
    by blast
  show ?thesis
  proof (cases more)
    case Nil
    with more w have "cur' = w @ x" "cur' \<noteq> []" "lines' = [[]]" by simp_all
    with start have "wrapLines width maxW (w # ws) = [] # (w @ x) # []"
      by (simp add: wrapLines_def)
    then show ?thesis by (metis append_eq_conv_conj)
  next
    case (Cons m ms)
    with more have m: "m = w @ x" "lines' = [] # m # ms" by simp_all
    with start have "wrapLines width maxW (w # ws)
        = [] # (w @ x) # (if cur' \<noteq> [] then ms @ [cur'] else ms)"
      by (simp add: wrapLines_def)
    then show ?thesis by (metis append_eq_conv_conj)
  qed
qed

lemma wrapLoop_skip_empty:
  assumes "width [] \<le> maxW" and "\<forall>u \<in> set us. u = []"
  shows "wrapLoop width maxW (us @ rest) [] [] = wrapLoop width maxW rest [] []"
  using assms(2) by (induction us) (simp_all add: assms(1))

lemma splitWsFrom_blank:
  assumes "\<forall>c \<in> set s. isSpace c"
  shows "set (splitWsFrom piece s) \<subseteq> {piece, []}"
proof (cases s)
  case Nil
  then show ?thesis by simp
next
  case (Cons c cs)
  with assms have c: "isSpace c" and "\<forall>x \<in> set cs. isSpace x" by simp_all
  then have d: "dropWhile isSpace cs = []" by simp
  from Cons c have "splitWsFrom piece s = piece # splitWsFrom [] (dropWhile isSpace cs)"
    by simp
  also have "\<dots> = [piece, []]" by (simp only: d splitWsFrom.simps)
  finally show ?thesis by simp
qed

lemma word_not_blank:
  assumes "w \<in> set (splitWs p)" and "w \<noteq> []"
  shows "trim p \<noteq> []"
proof
  assume "trim p = []"
  then have "dropWhile isSpace (rev (dropWhile isSpace p)) = []" by (simp add: trim_def)
  then have "\<forall>c \<in> set (dropWhile isSpace p). isSpace c" by simp
  then have "dropWhile isSpace p = []"
    using hd_dropWhile [of isSpace p] hd_in_set [of "dropWhile isSpace p"] by blast
  then have "\<forall>c \<in> set p. isSpace c" by simp
  from splitWsFrom_blank [OF this, of "[]"] assms show False by (auto simp: splitWs_def)
qed

text \<open>
  Claim C10. Let the first word of a paragraph, the first piece that is not empty, be wider
  than the usable width, the empty string being not. Then the lines of the paragraph start with the empty string, followed
  by the line that starts with the word; the empty line is drawn where the paragraph
  starts, on the current page or on a fresh one, and the line of the word one line height
  of 18 below it.
\<close>

theorem empty_line_before_overlong_first_word:
  assumes "wordsOf p = w # ws"
    and "maxWidth default_geometry < lineWidth default_geometry wd p w"
    and "lineWidth default_geometry wd p [] \<le> maxWidth default_geometry"
  shows "\<exists>l rest e ps.
      paragraphLines default_geometry wd p = [] # l # rest
      \<and> take (length w) l = w
      \<and> docPages (layoutParagraph default_geometry wd st p)
        = (if y st - of_nat (length (paragraphLines default_geometry wd p)) * 18 < 50
           then (donePages st @ [currentPage st])
             @ ([lineRun default_geometry (paragraphFont p) (paragraphSize default_geometry p) 730 [],
                 lineRun default_geometry (paragraphFont p) (paragraphSize default_geometry p) 712 l]
                @ e) # ps
           else donePages st
             @ (currentPage st
                @ [lineRun default_geometry (paragraphFont p) (paragraphSize default_geometry p)
                     (y st) [],
                   lineRun default_geometry (paragraphFont p) (paragraphSize default_geometry p)
                     (y st - 18) l]
                @ e) # ps)"
proof -
  let ?g = default_geometry
  let ?fnt = "paragraphFont p" and ?sz = "paragraphSize default_geometry p"
  let ?lines = "paragraphLines ?g wd p"
  from assms(1) obtain us vs where
    pieces: "splitWs p = us @ w # vs" and us: "\<forall>u \<in> set us. u = []" and w: "w \<noteq> []"
    unfolding wordsOf_def filter_eq_Cons_iff by auto
  have "wrapLines (lineWidth ?g wd p) (maxWidth ?g) (us @ w # vs)
      = wrapLines (lineWidth ?g wd p) (maxWidth ?g) (w # vs)"
    using wrapLoop_skip_empty [of "lineWidth ?g wd p" "maxWidth ?g" us "w # vs", OF assms(3) us]
    by (simp only: wrapLines_def)
  with wrapLines_overlong_first [OF assms(2,3), of vs] pieces
  obtain l rest where lines: "?lines = [] # l # rest" and l: "take (length w) l = w"
    by (auto simp: paragraphLines_def)
  from pieces have "w \<in> set (splitWs p)" by simp
  then have nb: "trim p \<noteq> []" using w by (rule word_not_blank)
  let ?st1 = "if y st - of_nat (length ?lines) * 18 < 50 then newPage ?g st else st"
  have n: "rat_of_nat (length ?lines) = 2 + rat_of_nat (length rest)" by (simp add: lines)
  have "0 \<le> rat_of_nat (length rest)" by simp
  with n have room: "\<not> y ?st1 - lineHeight ?g < margin ?g"
    by (simp add: newPage_def)
  let ?sa = "?st1\<lparr>currentPage := currentPage ?st1 @ [lineRun ?g ?fnt ?sz (y ?st1) []],
      y := y ?st1 - lineHeight ?g\<rparr>"
  have a: "drawLine ?g ?fnt ?sz ?st1 [] = ?sa" by (rule drawLine_stay [OF room])
  let ?sb = "drawLine ?g ?fnt ?sz ?sa l"
  have b: "docPages ?sb = donePages ?st1
      @ ((currentPage ?st1 @ [lineRun ?g ?fnt ?sz (y ?st1) [], lineRun ?g ?fnt ?sz (y ?st1 - 18) l]) @ [])
        # (if y ?sa - lineHeight ?g < margin ?g then [[]] else [])"
    using docPages_drawLine [of ?g ?fnt ?sz ?sa l] by simp
  obtain e' ps' where c: "docPages (drawLines ?g ?fnt ?sz ?sb rest)
      = donePages ?sb @ (currentPage ?sb @ e') # ps'"
    using drawLines_continues by blast
  from continues_trans [OF b c] obtain e ps where
    "docPages (drawLines ?g ?fnt ?sz ?sb rest) = donePages ?st1
      @ ((currentPage ?st1 @ [lineRun ?g ?fnt ?sz (y ?st1) [], lineRun ?g ?fnt ?sz (y ?st1 - 18) l]) @ e)
        # ps"
    by blast
  moreover have "layoutParagraph ?g wd st p
      = (drawLines ?g ?fnt ?sz ?sb rest)\<lparr>y := y (drawLines ?g ?fnt ?sz ?sb rest) - 12\<rparr>"
    using nb a by (simp add: layoutParagraph_def Let_def lines)
  ultimately have "docPages (layoutParagraph ?g wd st p) = donePages ?st1
      @ ((currentPage ?st1 @ [lineRun ?g ?fnt ?sz (y ?st1) [], lineRun ?g ?fnt ?sz (y ?st1 - 18) l]) @ e)
        # ps"
    by (simp add: docPages_y_update)
  then have "docPages (layoutParagraph default_geometry wd st p)
        = (if y st - of_nat (length (paragraphLines default_geometry wd p)) * 18 < 50
           then (donePages st @ [currentPage st])
             @ ([lineRun ?g ?fnt ?sz 730 [], lineRun ?g ?fnt ?sz 712 l] @ e) # ps
           else donePages st
             @ (currentPage st @ [lineRun ?g ?fnt ?sz (y st) [], lineRun ?g ?fnt ?sz (y st - 18) l]
                @ e) # ps)"
    by (simp add: newPage_def split: if_splits)
  with lines l show ?thesis by blast
qed


theorem empty_line_before_overlong_first_word_witness:
  "wordsOf ''abc'' = [''abc'']
   \<and> maxWidth default_geometry < lineWidth default_geometry wideMeasure ''abc'' ''abc''
   \<and> lineWidth default_geometry wideMeasure ''abc'' [] \<le> maxWidth default_geometry
   \<and> (\<exists>l rest e ps.
        paragraphLines default_geometry wideMeasure ''abc'' = [] # l # rest
        \<and> take (length ''abc'') l = ''abc''
        \<and> docPages (layoutParagraph default_geometry wideMeasure
             (initialState default_geometry ''doc.txt'') ''abc'')
           = donePages (initialState default_geometry ''doc.txt'')
             @ (currentPage (initialState default_geometry ''doc.txt'')
                @ [lineRun default_geometry (paragraphFont ''abc'')
                     (paragraphSize default_geometry ''abc'') 697 [],
                   lineRun default_geometry (paragraphFont ''abc'')
                     (paragraphSize default_geometry ''abc'') 679 l]
                @ e) # ps)"
proof -
  let ?st = "initialState default_geometry ''doc.txt''"
  have h1: "wordsOf ''abc'' = [''abc'']" by code_simp
  have h2: "maxWidth default_geometry < lineWidth default_geometry wideMeasure ''abc'' ''abc''"
    by (simp add: lineWidth_def wideMeasure_def)
  have h3: "lineWidth default_geometry wideMeasure ''abc'' [] \<le> maxWidth default_geometry"
    by (simp add: lineWidth_def wideMeasure_def)
  have room: "\<not> y ?st
      - of_nat (length (paragraphLines default_geometry wideMeasure ''abc'')) * 18 < 50"
    by code_simp
  have y0: "y ?st = 697" by (simp add: initialState_def)
  from empty_line_before_overlong_first_word [OF h1 h2 h3, of ?st] room y0
  have "\<exists>l rest e ps.
        paragraphLines default_geometry wideMeasure ''abc'' = [] # l # rest
        \<and> take (length ''abc'') l = ''abc''
        \<and> docPages (layoutParagraph default_geometry wideMeasure ?st ''abc'')
           = donePages ?st
             @ (currentPage ?st
                @ [lineRun default_geometry (paragraphFont ''abc'')
                     (paragraphSize default_geometry ''abc'') 697 [],
                   lineRun default_geometry (paragraphFont ''abc'')
                     (paragraphSize default_geometry ''abc'') 679 l]
                @ e) # ps"
    by simp
  with h1 h2 h3 show ?thesis by blast
qed

section \<open>A paragraph longer than a page\<close>

lemma layoutParagraphs_append:
  "layoutParagraphs g wd st (xs @ ys) = layoutParagraphs g wd (layoutParagraphs g wd st xs) ys"
  by (simp add: layoutParagraphs_def)

lemma layoutParagraphs_Cons:
  "layoutParagraphs g wd st (p # ps) = layoutParagraphs g wd (layoutParagraph g wd st p) ps"
  by (simp add: layoutParagraphs_def)

text \<open>
  More than 38 lines never fit below a cursor that is at most 730: the paragraph starts a
  page, fills it with 38 lines and goes on at the top of the next one.
\<close>

lemma long_paragraph_pages:
  assumes "y st \<le> 730" and "trim p \<noteq> []"
    and "38 < length (paragraphLines default_geometry wd p)"
  shows "\<exists>e ps. docPages (layoutParagraph default_geometry wd st p)
     = (donePages st
        @ [currentPage st,
           column default_geometry (paragraphFont p) (paragraphSize default_geometry p) 730
             (take 38 (paragraphLines default_geometry wd p))])
       @ ([lineRun default_geometry (paragraphFont p) (paragraphSize default_geometry p) 730
             (paragraphLines default_geometry wd p ! 38)] @ e) # ps"
proof -
  let ?g = default_geometry
  let ?fnt = "paragraphFont p" and ?sz = "paragraphSize default_geometry p"
  let ?lines = "paragraphLines ?g wd p"
  let ?a = "take 38 ?lines" and ?rest = "drop 39 ?lines"
  from assms(3) have "39 \<le> length ?lines" by simp
  then have "rat_of_nat 39 \<le> rat_of_nat (length ?lines)" by (simp only: of_nat_le_iff)
  then have "39 \<le> rat_of_nat (length ?lines)" by simp
  with assms(1) have over: "y st - of_nat (length ?lines) * 18 < 50" by simp
  have parts: "?lines = ?a @ (?lines ! 38) # ?rest"
    using assms(3) id_take_nth_drop [of 38 ?lines] by simp
  let ?st1 = "newPage ?g st"
  let ?s2 = "\<lparr>donePages = donePages ?st1 @ [currentPage ?st1 @ column ?g ?fnt ?sz 730 ?a],
      currentPage = [], y = 730\<rparr>"
  have "y ?st1 = 730" by (simp add: newPage_def)
  moreover from assms(3) have "length ?a = 38" by simp
  ultimately have a: "drawLines ?g ?fnt ?sz ?st1 ?a = ?s2" by (rule drawLines_full_page)
  let ?s3 = "drawLine ?g ?fnt ?sz ?s2 (?lines ! 38)"
  have all: "drawLines ?g ?fnt ?sz ?st1 ?lines = drawLines ?g ?fnt ?sz ?s3 ?rest"
    using drawLines_append [of ?g ?fnt ?sz ?st1 ?a "(?lines ! 38) # ?rest"] a parts by simp
  have b: "docPages ?s3 = donePages ?s2 @ ([lineRun ?g ?fnt ?sz 730 (?lines ! 38)] @ []) # []"
    using docPages_drawLine [of ?g ?fnt ?sz ?s2 "?lines ! 38"] by simp
  obtain e' ps' where c: "docPages (drawLines ?g ?fnt ?sz ?s3 ?rest)
      = donePages ?s3 @ (currentPage ?s3 @ e') # ps'"
    using drawLines_continues by blast
  from continues_trans [OF b c] obtain e ps where
    "docPages (drawLines ?g ?fnt ?sz ?s3 ?rest)
       = donePages ?s2 @ ([lineRun ?g ?fnt ?sz 730 (?lines ! 38)] @ e) # ps"
    by blast
  with all have "docPages (drawLines ?g ?fnt ?sz ?st1 ?lines)
       = (donePages st @ [currentPage st, column ?g ?fnt ?sz 730 ?a])
         @ ([lineRun ?g ?fnt ?sz 730 (?lines ! 38)] @ e) # ps"
    by (simp add: newPage_def)
  moreover have "docPages (layoutParagraph ?g wd st p) = docPages (drawLines ?g ?fnt ?sz ?st1 ?lines)"
    using over assms(2) by (simp add: layoutParagraph_def Let_def docPages_y_update)
  ultimately show ?thesis by auto
qed

lemma showNat_1: "showNat (Suc 0) = ''1''"
  by (simp add: showNat.simps)

lemma long_paragraph_three_pages_total:
  assumes "p \<in> set (splitParagraphs textContent)" and "trim p \<noteq> []"
    and "41 < length (paragraphLines default_geometry wd p)"
  shows "3 \<le> length (convertTextToPdf wd textPath textContent)
     \<and> rtext (last (convertTextToPdf wd textPath textContent ! 0))
         = ''Page 1 of '' @ showNat (length (convertTextToPdf wd textPath textContent))
     \<and> (\<exists>k. 0 < k \<and> Suc k < length (convertTextToPdf wd textPath textContent)
          \<and> butlast (convertTextToPdf wd textPath textContent ! k)
              = column default_geometry (paragraphFont p) (paragraphSize default_geometry p) 730
                  (take 38 (paragraphLines default_geometry wd p))
          \<and> hd (convertTextToPdf wd textPath textContent ! Suc k)
              = lineRun default_geometry (paragraphFont p) (paragraphSize default_geometry p) 730
                  (paragraphLines default_geometry wd p ! 38))"
proof -
  let ?g = default_geometry
  let ?col = "column ?g (paragraphFont p) (paragraphSize ?g p) 730
      (take 38 (paragraphLines ?g wd p))"
  let ?run = "lineRun ?g (paragraphFont p) (paragraphSize ?g p) 730 (paragraphLines ?g wd p ! 38)"
  from assms(1) obtain pre post where ps: "splitParagraphs textContent = pre @ p # post"
    by (auto dest: split_list)
  let ?s0 = "layoutParagraphs ?g wd (initialState ?g textPath) pre"
  let ?s1 = "layoutParagraph ?g wd ?s0 p"
  let ?D = "donePages ?s0 @ [currentPage ?s0, ?col]"
  have "aboveMargin ?s0"
    by (rule aboveMargin_layoutParagraphs [OF aboveMargin_initialState])
  then have y0: "y ?s0 \<le> 730" by (simp add: aboveMargin_def)
  from assms(3) have "38 < length (paragraphLines ?g wd p)" by simp
  from long_paragraph_pages [OF y0 assms(2) this] obtain e ps where
    one: "docPages ?s1 = ?D @ ([?run] @ e) # ps"
    by blast
  have pass: "layoutPass ?g wd textPath textContent = layoutParagraphs ?g wd ?s1 post"
    by (simp add: layoutPass_def ps layoutParagraphs_append layoutParagraphs_Cons)
  obtain e' ps' where "docPages (layoutParagraphs ?g wd ?s1 post)
      = donePages ?s1 @ (currentPage ?s1 @ e') # ps'"
    using layoutParagraphs_continues by blast
  from continues_trans [OF one this] pass obtain f qs where
    doc: "docPages (layoutPass ?g wd textPath textContent) = ?D @ ([?run] @ f) # qs"
    by auto
  let ?doc = "docPages (layoutPass ?g wd textPath textContent)"
  let ?k = "Suc (length (donePages ?s0))"
  have len: "length ?doc = Suc (Suc ?k) + length qs" by (simp add: doc)
  have k: "?doc ! ?k = ?col"
    using nth_append_length [of "donePages ?s0 @ [currentPage ?s0]" ?col "([?run] @ f) # qs"]
    by (simp add: doc)
  have k1: "?doc ! Suc ?k = [?run] @ f"
    using nth_append_length [of ?D "[?run] @ f" qs] by (simp add: doc)
  let ?out = "convertTextToPdf wd textPath textContent"
  have out_len: "length ?out = length ?doc"
    by (simp add: convertTextToPdf_def length_convertTextToPdfWith)
  have out_nth: "?out ! i = ?doc ! i @ [footerRun ?g i (length ?doc)]" if "i < length ?doc" for i
    unfolding convertTextToPdf_def by (rule nth_convertTextToPdfWith [OF that])
  have three: "3 \<le> length ?out" by (simp add: out_len len)
  have first: "rtext (last (?out ! 0)) = ''Page 1 of '' @ showNat (length ?out)"
    using out_nth [of 0] by (simp add: len out_len footerRun_def showNat_1)
  have "butlast (?out ! ?k) = ?col"
    using out_nth [of ?k] k by (simp add: len)
  moreover have "hd (?out ! Suc ?k) = ?run"
    using out_nth [of "Suc ?k"] k1 by (simp add: len)
  moreover have "0 < ?k \<and> Suc ?k < length ?out" by (simp add: out_len len)
  ultimately have "\<exists>k. 0 < k \<and> Suc k < length ?out \<and> butlast (?out ! k) = ?col
      \<and> hd (?out ! Suc k) = ?run"
    by blast
  with three first show ?thesis by blast
qed


lemma docPages_not_Nil: "docPages st \<noteq> []"
  by (simp add: docPages_def)

section \<open>The conversion when no call throws\<close>

text \<open>
  Whenever the conversion with exceptions returns pages, they are the pages of
  \<open>convertTextToPdf\<close> under the widths of the library. No assumption on the library is
  needed for this direction.
\<close>

lemma lineWidth_widthOf:
  "lineWidth g (widthOf lib) p = (\<lambda>t. widthOf lib (paragraphFont p) t (paragraphSize g p))"
  by (rule ext) (simp add: lineWidth_def)

lemma tryWrapLoop_Inr:
  "tryWrapLoop lib fnt sz maxW words lines cur = Inr r
     \<Longrightarrow> r = wrapLoop (\<lambda>t. widthOf lib fnt t sz) maxW words lines cur"
  by (induction words arbitrary: lines cur)
     (auto simp: widthOfTextAtSize_def Let_def split: if_splits)

lemma tryParagraphLines_Inr:
  assumes "tryParagraphLines lib g p = Inr ls"
  shows "ls = paragraphLines g (widthOf lib) p"
proof -
  from assms obtain lines cur where
    loop: "tryWrapLoop lib (paragraphFont p) (paragraphSize g p) (maxWidth g) (splitWs p) [] []
      = Inr (lines, cur)"
    and ls: "ls = (if cur \<noteq> [] then lines @ [cur] else lines)"
    by (auto simp: tryParagraphLines_def split: sum.splits)
  from tryWrapLoop_Inr [OF loop, symmetric] ls show ?thesis
    by (simp add: paragraphLines_def wrapLines_def lineWidth_widthOf)
qed

lemma tryDrawLine_Inr:
  "tryDrawLine lib g fnt sz st line = Inr st' \<Longrightarrow> st' = drawLine g fnt sz st line"
  by (auto simp: tryDrawLine_def tryDrawText_def drawLine_def Let_def split: if_splits)

lemma tryDrawLines_Inr:
  "tryDrawLines lib g fnt sz st lines = Inr st' \<Longrightarrow> st' = drawLines g fnt sz st lines"
  by (induction lines arbitrary: st) (auto split: sum.splits dest: tryDrawLine_Inr)

lemma tryLayoutParagraph_Inr:
  assumes "tryLayoutParagraph lib g st p = Inr st'"
  shows "st' = layoutParagraph g (widthOf lib) st p"
proof (cases "trim p = []")
  case True
  with assms show ?thesis by (simp add: tryLayoutParagraph_def layoutParagraph_def)
next
  case False
  with assms obtain ls st2 where
    ls: "tryParagraphLines lib g p = Inr ls"
    and draw: "tryDrawLines lib g (paragraphFont p) (paragraphSize g p)
        (if y st - of_nat (length ls) * lineHeight g < margin g then newPage g st else st) ls
      = Inr st2"
    and st': "st' = st2\<lparr>y := y st2 - fontSize g\<rparr>"
    by (auto simp: tryLayoutParagraph_def Let_def split: sum.splits)
  from tryParagraphLines_Inr [OF ls] tryDrawLines_Inr [OF draw] st' False show ?thesis
    by (simp add: layoutParagraph_def Let_def)
qed

lemma tryLayoutParagraphs_Inr:
  "tryLayoutParagraphs lib g st ps = Inr st' \<Longrightarrow> st' = layoutParagraphs g (widthOf lib) st ps"
  by (induction ps arbitrary: st)
     (auto simp: layoutParagraphs_def split: sum.splits dest: tryLayoutParagraph_Inr)

lemma tryStampFooters_Inr:
  "tryStampFooters lib g n i ps = Inr ps' \<Longrightarrow> ps' = stampFooters g n i ps"
  by (induction ps arbitrary: i ps') (auto split: sum.splits if_splits)

lemma tryConvertTextToPdf_Inr:
  assumes "tryConvertTextToPdf lib textPath textContent = Inr doc"
  shows "doc = convertTextToPdf (widthOf lib) textPath textContent"
proof -
  from assms obtain st0 st where
    s0: "tryInitialState lib default_geometry textPath = Inr st0"
    and s: "tryLayoutParagraphs lib default_geometry st0 (splitParagraphs textContent) = Inr st"
    and f: "tryStampFooters lib default_geometry (length (docPages st)) 0 (docPages st) = Inr doc"
    by (auto simp: tryConvertTextToPdf_def split: sum.splits)
  from s0 have "st0 = initialState default_geometry textPath"
    by (simp add: tryInitialState_def split: if_splits)
  with tryLayoutParagraphs_Inr [OF s]
  have "st = layoutPass default_geometry (widthOf lib) textPath textContent"
    by (simp add: layoutPass_def)
  with tryStampFooters_Inr [OF f] show ?thesis
    by (simp add: convertTextToPdf_def convertTextToPdfWith_def Let_def)
qed

section \<open>The words of the text\<close>

text \<open>
  What \<open>wordsOf\<close> is: the words are not empty and hold no white space, and put together they
  are the characters of the string that are not white space, in their order.
\<close>

lemma filter_dropWhile_isSpace:
  "filter (\<lambda>c. \<not> isSpace c) (dropWhile isSpace cs) = filter (\<lambda>c. \<not> isSpace c) cs"
  by (induction cs) simp_all

lemma concat_splitWsFrom:
  "concat (splitWsFrom piece s) = piece @ filter (\<lambda>c. \<not> isSpace c) s"
proof (induction piece s rule: splitWsFrom.induct)
  case (1 piece)
  then show ?case by simp
next
  case (2 piece c cs)
  show ?case
  proof (cases "isSpace c")
    case True
    with "2.IH"(1) [OF True] show ?thesis by (simp add: filter_dropWhile_isSpace)
  next
    case False
    with "2.IH"(2) [OF False] show ?thesis by simp
  qed
qed

lemma concat_filter_not_Nil: "concat (filter (\<lambda>w. w \<noteq> []) xs) = concat xs"
  by (induction xs) simp_all

lemma wordsOf_spec:
  "concat (wordsOf s) = filter (\<lambda>c. \<not> isSpace c) s
   \<and> (\<forall>w \<in> set (wordsOf s). w \<noteq> [] \<and> (\<forall>c \<in> set w. \<not> isSpace c))"
proof -
  have "concat (wordsOf s) = filter (\<lambda>c. \<not> isSpace c) s"
    using concat_splitWsFrom [of "[]" s]
    by (simp add: wordsOf_def splitWs_def concat_filter_not_Nil)
  moreover have "\<forall>w \<in> set (wordsOf s). w \<noteq> [] \<and> (\<forall>c \<in> set w. \<not> isSpace c)"
    using splitWs_no_space [of _ s] by (auto simp: wordsOf_def)
  ultimately show ?thesis by blast
qed

lemma wordsOf_space_Cons:
  assumes "isSpace sp"
  shows "wordsOf (a @ sp # b) = wordsOf a @ wordsOf b"
  using splitWsFrom_append_space [OF assms, of "[]" a b] by (simp add: wordsOf_def splitWs_def)

lemma wordsOf_spaces_append:
  assumes "\<forall>c \<in> set ws. isSpace c"
  shows "wordsOf (ws @ rest) = wordsOf rest"
  using assms
proof (induction ws)
  case Nil
  then show ?case by simp
next
  case (Cons c ws)
  then have "isSpace c" by simp
  from wordsOf_space_Cons [OF this, of "[]" "ws @ rest"] Cons show ?case
    by (simp add: wordsOf_Nil)
qed

lemma wordsOf_afterBlank: "wordsOf (afterBlank cs) = wordsOf cs"
proof -
  have a: "\<forall>c \<in> set (rev (takeWhile (\<lambda>c. c \<noteq> CHR 0x0A) (rev (takeWhile isSpace cs)))). isSpace c"
    by (auto dest!: set_takeWhileD)
  have b: "\<forall>c \<in> set (takeWhile isSpace cs). isSpace c"
    by (auto dest!: set_takeWhileD)
  have "wordsOf (afterBlank cs) = wordsOf (dropWhile isSpace cs)"
    unfolding afterBlank_def by (rule wordsOf_spaces_append [OF a])
  also have "\<dots> = wordsOf (takeWhile isSpace cs @ dropWhile isSpace cs)"
    by (rule wordsOf_spaces_append [OF b, symmetric])
  finally show ?thesis by simp
qed

lemma wordsOf_splitParagraphsFrom:
  "concat (map wordsOf (splitParagraphsFrom piece s)) = wordsOf (piece @ s)"
proof (induction piece s rule: splitParagraphsFrom.induct)
  case (1 piece)
  then show ?case by simp
next
  case (2 piece c cs)
  show ?case
  proof (cases "c = CHR 0x0A \<and> CHR 0x0A \<in> set (takeWhile isSpace cs)")
    case True
    then have "concat (map wordsOf (splitParagraphsFrom piece (c # cs)))
        = wordsOf piece @ concat (map wordsOf (splitParagraphsFrom [] (afterBlank cs)))"
      by simp
    also have "\<dots> = wordsOf piece @ wordsOf cs"
      using "2.IH"(1) [OF True] by (simp add: wordsOf_afterBlank)
    also have "\<dots> = wordsOf (piece @ c # cs)"
      by (rule wordsOf_space_Cons [symmetric]) (simp add: True isSpace_def)
    finally show ?thesis .
  next
    case False
    then have "splitParagraphsFrom piece (c # cs) = splitParagraphsFrom (piece @ [c]) cs"
      by (simp only: splitParagraphsFrom.simps if_False)
    with "2.IH"(2) [OF False] show ?thesis by simp
  qed
qed

lemma wordsOf_blank: "trim p = [] \<Longrightarrow> wordsOf p = []"
proof -
  assume "trim p = []"
  then have "dropWhile isSpace (rev (dropWhile isSpace p)) = []" by (simp add: trim_def)
  then have "\<forall>c \<in> set (dropWhile isSpace p). isSpace c" by simp
  then have "dropWhile isSpace p = []"
    using hd_dropWhile [of isSpace p] hd_in_set [of "dropWhile isSpace p"] by blast
  then have "\<forall>c \<in> set p. isSpace c" by simp
  from splitWsFrom_blank [OF this, of "[]"] show ?thesis
    by (auto simp: wordsOf_def splitWs_def filter_empty_conv)
qed



section \<open>When the conversion throws\<close>

lemma encodes_Nil: "encodes lib []"
  by (simp add: encodes_def)

lemma encodes_append: "encodes lib (a @ b) \<longleftrightarrow> encodes lib a \<and> encodes lib b"
  by (simp add: encodes_def)

lemma encodes_Cons: "encodes lib (c # t) \<longleftrightarrow> canEncode lib c \<and> encodes lib t"
  by (simp add: encodes_def)

lemma encodes_iff: "encodes lib t \<longleftrightarrow> (\<forall>c \<in> set t. canEncode lib c)"
  by (simp add: encodes_def list_all_iff)

lemma tryWrapLoop_eq:
  assumes "canEncode lib (CHR '' '')" and "encodes lib cur"
  shows "tryWrapLoop lib fnt sz maxW words lines cur
     = (if \<forall>w \<in> set words. encodes lib w
        then Inr (wrapLoop (\<lambda>t. widthOf lib fnt t sz) maxW words lines cur)
        else Inl EncodingError)"
  using assms(2)
proof (induction words arbitrary: lines cur)
  case Nil
  then show ?case by simp
next
  case (Cons word words)
  let ?test = "if cur \<noteq> [] then cur @ '' '' @ word else word"
  have test: "encodes lib ?test \<longleftrightarrow> encodes lib word"
    using Cons.prems assms(1) by (simp add: encodes_append encodes_Cons)
  show ?case
  proof (cases "encodes lib word")
    case False
    with test show ?thesis by (simp add: widthOfTextAtSize_def Let_def)
  next
    case True
    with test have t: "encodes lib ?test" by simp
    from Cons.IH [OF t] Cons.IH [OF True] True t show ?thesis
      by (simp add: widthOfTextAtSize_def Let_def)
  qed
qed

lemma wrapLoop_encodes:
  assumes "canEncode lib (CHR '' '')"
    and "wrapLoop width maxW words lines cur = (lines', cur')"
    and "encodes lib cur" and "\<forall>l \<in> set lines. encodes lib l"
    and "\<forall>w \<in> set words. encodes lib w"
  shows "(\<forall>l \<in> set lines'. encodes lib l) \<and> encodes lib cur'"
  using assms(2-)
proof (induction words arbitrary: lines cur)
  case Nil
  then show ?case by simp
next
  case (Cons word words)
  let ?test = "if cur \<noteq> [] then cur @ '' '' @ word else word"
  from Cons.prems(4) have word: "encodes lib word" and rest: "\<forall>w \<in> set words. encodes lib w"
    by simp_all
  have t: "encodes lib ?test"
    using Cons.prems(2) word assms(1) by (simp add: encodes_append encodes_Cons)
  show ?case
  proof (cases "width ?test \<le> maxW")
    case True
    with Cons.prems(1) have "wrapLoop width maxW words lines ?test = (lines', cur')"
      by (simp add: Let_def)
    from Cons.IH [OF this t Cons.prems(3) rest] show ?thesis .
  next
    case False
    with Cons.prems(1) have loop: "wrapLoop width maxW words (lines @ [cur]) word = (lines', cur')"
      by (simp add: Let_def)
    have "\<forall>l \<in> set (lines @ [cur]). encodes lib l" using Cons.prems(2,3) by simp
    from Cons.IH [OF loop word this rest] show ?thesis .
  qed
qed

lemma paragraphLines_encodes:
  assumes "canEncode lib (CHR '' '')" and "\<forall>w \<in> set (splitWs p). encodes lib w"
  shows "\<forall>l \<in> set (paragraphLines g wd p). encodes lib l"
proof -
  obtain lines cur where
    loop: "wrapLoop (lineWidth g wd p) (maxWidth g) (splitWs p) [] [] = (lines, cur)"
    by (cases "wrapLoop (lineWidth g wd p) (maxWidth g) (splitWs p) [] []")
  have "(\<forall>l \<in> set lines. encodes lib l) \<and> encodes lib cur"
    by (rule wrapLoop_encodes [OF assms(1) loop]) (simp_all add: encodes_Nil assms(2))
  with loop show ?thesis by (simp add: paragraphLines_def wrapLines_def)
qed

lemma tryParagraphLines_eq:
  assumes "canEncode lib (CHR '' '')"
  shows "tryParagraphLines lib g p
     = (if \<forall>w \<in> set (splitWs p). encodes lib w
        then Inr (paragraphLines g (widthOf lib) p) else Inl EncodingError)"
proof -
  obtain lines cur where
    "wrapLoop (\<lambda>t. widthOf lib (paragraphFont p) t (paragraphSize g p)) (maxWidth g)
       (splitWs p) [] [] = (lines, cur)"
    by (cases "wrapLoop (\<lambda>t. widthOf lib (paragraphFont p) t (paragraphSize g p)) (maxWidth g)
       (splitWs p) [] []")
  then show ?thesis
    using tryWrapLoop_eq [OF assms encodes_Nil, of "paragraphFont p" "paragraphSize g p"
        "maxWidth g" "splitWs p" "[]"]
    by (simp add: tryParagraphLines_def paragraphLines_def wrapLines_def lineWidth_widthOf)
qed

lemma tryDrawLine_eq:
  "tryDrawLine lib g fnt sz st line
     = (if canDraw lib line then Inr (drawLine g fnt sz st line) else Inl EncodingError)"
  by (simp add: tryDrawLine_def tryDrawText_def drawLine_def lineRun_def Let_def)

lemma tryDrawLines_eq:
  "tryDrawLines lib g fnt sz st lines
     = (if \<forall>l \<in> set lines. canDraw lib l then Inr (drawLines g fnt sz st lines)
        else Inl EncodingError)"
  by (induction lines arbitrary: st) (simp_all add: tryDrawLine_eq)

lemma tryLayoutParagraph_eq:
  assumes "canEncode lib (CHR '' '')" and "\<forall>t. encodes lib t \<longrightarrow> canDraw lib t"
  shows "tryLayoutParagraph lib g st p
     = (if trim p = [] \<or> (\<forall>w \<in> set (splitWs p). encodes lib w)
        then Inr (layoutParagraph g (widthOf lib) st p) else Inl EncodingError)"
proof (cases "trim p = []")
  case True
  then show ?thesis by (simp add: tryLayoutParagraph_def layoutParagraph_def)
next
  case False
  show ?thesis
  proof (cases "\<forall>w \<in> set (splitWs p). encodes lib w")
    case words: True
    then have lines: "tryParagraphLines lib g p = Inr (paragraphLines g (widthOf lib) p)"
      by (simp add: tryParagraphLines_eq [OF assms(1)])
    from paragraphLines_encodes [OF assms(1) words, of g "widthOf lib"] assms(2)
    have "\<forall>l \<in> set (paragraphLines g (widthOf lib) p). canDraw lib l" by blast
    then have draw: "tryDrawLines lib g fnt sz st1 (paragraphLines g (widthOf lib) p)
        = Inr (drawLines g fnt sz st1 (paragraphLines g (widthOf lib) p))" for fnt sz st1
      by (simp add: tryDrawLines_eq)
    from False words show ?thesis
      by (simp add: tryLayoutParagraph_def layoutParagraph_def Let_def lines draw)
  next
    case words: False
    then have "tryParagraphLines lib g p = Inl EncodingError"
      by (simp add: tryParagraphLines_eq [OF assms(1)])
    with False words show ?thesis by (simp add: tryLayoutParagraph_def)
  qed
qed

lemma tryLayoutParagraphs_eq:
  assumes "canEncode lib (CHR '' '')" and "\<forall>t. encodes lib t \<longrightarrow> canDraw lib t"
  shows "tryLayoutParagraphs lib g st ps
     = (if \<forall>p \<in> set ps. trim p = [] \<or> (\<forall>w \<in> set (splitWs p). encodes lib w)
        then Inr (layoutParagraphs g (widthOf lib) st ps) else Inl EncodingError)"
  by (induction ps arbitrary: st)
     (simp_all add: tryLayoutParagraph_eq [OF assms] layoutParagraphs_def)

lemma showNat_digits: "set (showNat n) \<subseteq> set ''0123456789''"
proof (induction n rule: showNat.induct)
  case (1 n)
  have digit: "''0123456789'' ! k \<in> set ''0123456789''" if "k < 10" for k
    by (rule nth_mem) (use that in simp)
  show ?case
  proof (cases "n < 10")
    case True
    with digit [of n] show ?thesis by (subst showNat.simps) simp
  next
    case False
    have "n mod 10 < 10" by simp
    from digit [OF this] "1.IH" [OF False] False show ?thesis
      by (subst showNat.simps) simp
  qed
qed

lemma footer_encodes:
  assumes "encodes lib ''Page of 0123456789''"
  shows "encodes lib (rtext (footerRun g i n))"
proof -
  have "set ''0123456789'' \<subseteq> set ''Page of 0123456789''" by simp
  with assms have digits: "encodes lib (showNat k)" for k
    using showNat_digits [of k] unfolding encodes_iff by blast
  from assms have "encodes lib ''Page ''" and "encodes lib '' of ''"
    by (simp_all add: encodes_Cons encodes_Nil)
  with digits have "encodes lib ((''Page '' @ showNat (i + 1)) @ ('' of '' @ showNat n))"
    by (simp only: encodes_append)
  then show ?thesis by (simp add: footerRun_def)
qed

lemma tryStampFooters_eq:
  assumes "encodes lib ''Page of 0123456789''" and "\<forall>t. encodes lib t \<longrightarrow> canDraw lib t"
  shows "tryStampFooters lib g n i ps = Inr (stampFooters g n i ps)"
proof -
  have "canDraw lib (rtext (footerRun g k n))" for k
    using footer_encodes [OF assms(1), of g k n] assms(2) by blast
  then show ?thesis by (induction ps arbitrary: i) simp_all
qed

text \<open>The characters of the words of a string are its characters that are not white space.\<close>

lemma nonspace_dropWhile:
  "{c \<in> set (dropWhile isSpace cs). \<not> isSpace c} = {c \<in> set cs. \<not> isSpace c}"
proof -
  have "set cs = set (takeWhile isSpace cs) \<union> set (dropWhile isSpace cs)"
    by (metis set_append takeWhile_dropWhile_id)
  then show ?thesis by (auto dest: set_takeWhileD set_dropWhileD)
qed

lemma splitWsFrom_chars:
  "(\<Union>w \<in> set (splitWsFrom piece s). set w) = set piece \<union> {c \<in> set s. \<not> isSpace c}"
proof (induction piece s rule: splitWsFrom.induct)
  case (1 piece)
  then show ?case by simp
next
  case (2 piece c cs)
  show ?case
  proof (cases "isSpace c")
    case True
    with "2.IH"(1) [OF True] nonspace_dropWhile [of cs] show ?thesis by auto
  next
    case False
    with "2.IH"(2) [OF False] show ?thesis by auto
  qed
qed

lemma wordsOf_encodes:
  "(\<forall>w \<in> set (wordsOf s). encodes lib w) \<longleftrightarrow> (\<forall>c \<in> set s. isSpace c \<or> canEncode lib c)"
proof -
  have "(\<forall>w \<in> set (wordsOf s). encodes lib w)
      \<longleftrightarrow> (\<forall>c \<in> (\<Union>w \<in> set (splitWsFrom [] s). set w). canEncode lib c)"
    by (auto simp: wordsOf_def splitWs_def encodes_iff)
  then show ?thesis by (auto simp: splitWsFrom_chars)
qed

lemma splitWs_encodes:
  "(\<forall>w \<in> set (splitWs p). encodes lib w) \<longleftrightarrow> (\<forall>w \<in> set (wordsOf p). encodes lib w)"
  by (auto simp: wordsOf_def encodes_Nil)

lemma paragraphs_encode:
  "(\<forall>p \<in> set (splitParagraphs textContent).
      trim p = [] \<or> (\<forall>w \<in> set (splitWs p). encodes lib w))
   \<longleftrightarrow> (\<forall>c \<in> set textContent. isSpace c \<or> canEncode lib c)"
proof -
  have "(\<forall>p \<in> set (splitParagraphs textContent).
      trim p = [] \<or> (\<forall>w \<in> set (splitWs p). encodes lib w))
    \<longleftrightarrow> (\<forall>p \<in> set (splitParagraphs textContent). \<forall>w \<in> set (wordsOf p). encodes lib w)"
    using wordsOf_blank by (auto simp: splitWs_encodes)
  also have "\<dots> \<longleftrightarrow> (\<forall>w \<in> set (concat (map wordsOf (splitParagraphs textContent))).
      encodes lib w)"
    by auto
  also have "\<dots> \<longleftrightarrow> (\<forall>w \<in> set (wordsOf textContent). encodes lib w)"
    using wordsOf_splitParagraphsFrom [of "[]" textContent] by (simp add: splitParagraphs_def)
  finally show ?thesis by (simp add: wordsOf_encodes)
qed

lemma tryConvertTextToPdf_eq:
  assumes "encodes lib ''Page of 0123456789''" and "\<forall>t. encodes lib t \<longrightarrow> canDraw lib t"
  shows "tryConvertTextToPdf lib textPath textContent
     = (if canDraw lib (titleOf (fileNameOf textPath))
           \<and> (\<forall>c \<in> set textContent. isSpace c \<or> canEncode lib c)
        then Inr (convertTextToPdf (widthOf lib) textPath textContent)
        else Inl EncodingError)"
proof -
  from assms(1) have sp: "canEncode lib (CHR '' '')" by (simp add: encodes_iff)
  show ?thesis
    unfolding tryConvertTextToPdf_def tryInitialState_def
    by (simp add: tryLayoutParagraphs_eq [OF sp assms(2)] tryStampFooters_eq [OF assms]
        paragraphs_encode convertTextToPdf_def convertTextToPdfWith_def Let_def layoutPass_def)
qed

section \<open>Word preservation\<close>




section \<open>A paragraph longer than a page, in the saved document\<close>

text \<open>
  Claim C2, as the code has it. Let the conversion complete and let a non-blank paragraph
  of the input wrap into more than 41 lines. Then the saved document has at least three
  pages and the footer of its first page reads \<open>Page 1 of N\<close> with \<open>N\<close> the number of
  pages. The paragraph starts a page of its own, which is not the first: that page holds
  the first 38 lines of the paragraph from 730 down to 64 and its footer, and the 39th
  line is the first run of the following page, at 730.
\<close>

theorem long_paragraph_three_pages:
  assumes "tryConvertTextToPdf lib textPath textContent = Inr doc"
    and "p \<in> set (splitParagraphs textContent)" and "trim p \<noteq> []"
    and "41 < length (paragraphLines default_geometry (widthOf lib) p)"
  shows "3 \<le> length doc
     \<and> rtext (last (doc ! 0)) = ''Page 1 of '' @ showNat (length doc)
     \<and> (\<exists>k. 0 < k \<and> Suc k < length doc
          \<and> butlast (doc ! k)
              = column default_geometry (paragraphFont p) (paragraphSize default_geometry p) 730
                  (take 38 (paragraphLines default_geometry (widthOf lib) p))
          \<and> hd (doc ! Suc k)
              = lineRun default_geometry (paragraphFont p) (paragraphSize default_geometry p) 730
                  (paragraphLines default_geometry (widthOf lib) p ! 38))"
proof -
  from assms(1) have "doc = convertTextToPdf (widthOf lib) textPath textContent"
    by (rule tryConvertTextToPdf_Inr)
  with long_paragraph_three_pages_total [OF assms(2-4), of textPath] show ?thesis by simp
qed

theorem long_paragraph_three_pages_witness:
  "tryConvertTextToPdf wideLibrary ''doc.txt'' ''a a a a a a a a a a a a a a a a a a a a a a a a a a a a a a a a a a a a a a a a a a''
     = Inr (convertTextToPdf wideMeasure ''doc.txt'' ''a a a a a a a a a a a a a a a a a a a a a a a a a a a a a a a a a a a a a a a a a a'')
   \<and> ''a a a a a a a a a a a a a a a a a a a a a a a a a a a a a a a a a a a a a a a a a a'' \<in> set (splitParagraphs ''a a a a a a a a a a a a a a a a a a a a a a a a a a a a a a a a a a a a a a a a a a'')
   \<and> trim ''a a a a a a a a a a a a a a a a a a a a a a a a a a a a a a a a a a a a a a a a a a'' \<noteq> []
   \<and> 41 < length (paragraphLines default_geometry (widthOf wideLibrary) ''a a a a a a a a a a a a a a a a a a a a a a a a a a a a a a a a a a a a a a a a a a'')
   \<and> 3 \<le> length (convertTextToPdf wideMeasure ''doc.txt'' ''a a a a a a a a a a a a a a a a a a a a a a a a a a a a a a a a a a a a a a a a a a'')
   \<and> rtext (last (convertTextToPdf wideMeasure ''doc.txt'' ''a a a a a a a a a a a a a a a a a a a a a a a a a a a a a a a a a a a a a a a a a a'' ! 0))
       = ''Page 1 of '' @ showNat (length (convertTextToPdf wideMeasure ''doc.txt'' ''a a a a a a a a a a a a a a a a a a a a a a a a a a a a a a a a a a a a a a a a a a''))"
proof -
  have h0: "tryConvertTextToPdf wideLibrary ''doc.txt'' ''a a a a a a a a a a a a a a a a a a a a a a a a a a a a a a a a a a a a a a a a a a''
     = Inr (convertTextToPdf wideMeasure ''doc.txt'' ''a a a a a a a a a a a a a a a a a a a a a a a a a a a a a a a a a a a a a a a a a a'')"
    by code_simp
  have h1: "''a a a a a a a a a a a a a a a a a a a a a a a a a a a a a a a a a a a a a a a a a a'' \<in> set (splitParagraphs ''a a a a a a a a a a a a a a a a a a a a a a a a a a a a a a a a a a a a a a a a a a'')"
    by code_simp
  have h2: "trim ''a a a a a a a a a a a a a a a a a a a a a a a a a a a a a a a a a a a a a a a a a a'' \<noteq> []"
    by code_simp
  have h3: "41 < length (paragraphLines default_geometry (widthOf wideLibrary) ''a a a a a a a a a a a a a a a a a a a a a a a a a a a a a a a a a a a a a a a a a a'')"
    by code_simp
  from long_paragraph_three_pages [OF h0 h1 h2 h3] h0 h1 h2 h3
  show ?thesis by blast
qed

text \<open>
  The claim as worded fails on a single paragraph of 42 lines: the conversion completes,
  the first page keeps the title alone, the second takes 38 lines and the third the other
  four, so the footer of the first page reads \<open>Page 1 of 3\<close>.
\<close>

theorem long_paragraph_footer_counterexample:
  "splitParagraphs ''a a a a a a a a a a a a a a a a a a a a a a a a a a a a a a a a a a a a a a a a a a'' = [''a a a a a a a a a a a a a a a a a a a a a a a a a a a a a a a a a a a a a a a a a a'']
   \<and> length (paragraphLines default_geometry (widthOf wideLibrary) ''a a a a a a a a a a a a a a a a a a a a a a a a a a a a a a a a a a a a a a a a a a'') = 42
   \<and> tryConvertTextToPdf wideLibrary ''doc.txt'' ''a a a a a a a a a a a a a a a a a a a a a a a a a a a a a a a a a a a a a a a a a a''
       = Inr (convertTextToPdf wideMeasure ''doc.txt'' ''a a a a a a a a a a a a a a a a a a a a a a a a a a a a a a a a a a a a a a a a a a'')
   \<and> map (map rtext) (convertTextToPdf wideMeasure ''doc.txt'' ''a a a a a a a a a a a a a a a a a a a a a a a a a a a a a a a a a a a a a a a a a a'')
       = [[''doc'', ''Page 1 of 3''],
          replicate 38 ''a'' @ [''Page 2 of 3''],
          replicate 4 ''a'' @ [''Page 3 of 3'']]"
  by code_simp

section \<open>The errors of the conversion\<close>

text \<open>
  Claim C7, as the code has it. The conversion has no geometry argument: the page of 612 by
  792 points and the margin of 50, which leave a usable area, are constants, nothing
  validates them, and no configuration error exists. The one error of the layout is the
  encoding error of the library. Let the font encode the characters of the footers, and let
  every text that can be measured be one that can be drawn. Then the conversion throws
  that error, with nothing saved, exactly when the title cannot be drawn or the text holds
  a character, other than white space, that the font cannot encode; otherwise it saves a
  document of at least one page.
\<close>

theorem only_encoding_errors:
  assumes "encodes lib ''Page of 0123456789''" and "\<forall>t. encodes lib t \<longrightarrow> canDraw lib t"
  shows "tryConvertTextToPdf lib textPath textContent
       = (if canDraw lib (titleOf (fileNameOf textPath))
             \<and> (\<forall>c \<in> set textContent. isSpace c \<or> canEncode lib c)
          then Inr (convertTextToPdf (widthOf lib) textPath textContent)
          else Inl EncodingError)
     \<and> convertTextToPdf (widthOf lib) textPath textContent \<noteq> []
     \<and> 0 < pageWidth default_geometry \<and> 0 < pageHeight default_geometry
     \<and> 0 < margin default_geometry
     \<and> margin default_geometry < pageWidth default_geometry / 2
     \<and> margin default_geometry < pageHeight default_geometry / 2"
proof -
  have "length (convertTextToPdf (widthOf lib) textPath textContent) \<noteq> 0"
    using docPages_not_Nil [of "layoutPass default_geometry (widthOf lib) textPath textContent"]
    by (simp add: convertTextToPdf_def length_convertTextToPdfWith)
  with tryConvertTextToPdf_eq [OF assms, of textPath textContent] show ?thesis by simp
qed

theorem only_encoding_errors_witness:
  "encodes wideLibrary ''Page of 0123456789''
   \<and> tryConvertTextToPdf wideLibrary ''report.txt'' ''Hi there''
     = Inr (convertTextToPdf (widthOf wideLibrary) ''report.txt'' ''Hi there'')"
proof -
  have h: "encodes wideLibrary ''Page of 0123456789''" by code_simp
  have d: "\<forall>t. encodes wideLibrary t \<longrightarrow> canDraw wideLibrary t"
    by (simp add: encodes_def wideLibrary_def)
  have c: "canDraw wideLibrary (titleOf (fileNameOf ''report.txt''))
      \<and> (\<forall>c \<in> set ''Hi there''. isSpace c \<or> canEncode wideLibrary c)"
    by code_simp
  from only_encoding_errors [OF h d, of "''report.txt''" "''Hi there''"] c h
  show ?thesis by simp
qed

text \<open>
  The claim as worded fails at the fixed geometry of the source, which is valid: a text with
  a character that the font cannot encode is answered by an error that is no
  configuration error.
\<close>

theorem error_under_valid_geometry_counterexample:
  "tryConvertTextToPdf wideLibrary ''report.txt'' [CHR ''o'', CHR ''k'', CHR 0x02]
     = Inl EncodingError
   \<and> 0 < pageWidth default_geometry \<and> 0 < pageHeight default_geometry
   \<and> 0 < margin default_geometry
   \<and> margin default_geometry < pageWidth default_geometry / 2
   \<and> margin default_geometry < pageHeight default_geometry / 2"
  by code_simp

end
